theory Spec2Isabelle
  imports Main
begin

section \<open>streamEye: the frame segmenter, the client registry and the main loop\<close>

text \<open>
  This theory embeds \<^verbatim>\<open>streameye.c\<close>: the option parsing at the head of \<^verbatim>\<open>main\<close>,
  \<^verbatim>\<open>on_client_exit\<close>, the body of the main loop (read, overflow check, append,
  separator search, publication of a frame, registration of a new client) and the
  shutdown sequence that follows the loop.

  A C \<^verbatim>\<open>char\<close> is a \<^typ>\<open>char\<close>; a region of memory is a list of them. Sizes are
  \<^typ>\<open>nat\<close> where the code only ever holds a non-negative value and \<^typ>\<open>int\<close> where
  a comparison or a decrement can go below zero. The compile-time constants of
  \<^verbatim>\<open>streameye.h\<close> are parameters of the model.
\<close>

subsection \<open>Constants of streameye.h\<close>

type_synonym byte = char

record params =
  INPUT_BUF_LEN :: nat
  JPEG_BUF_LEN :: nat

text \<open>Modelled from the spec: \<^verbatim>\<open>JPEG_START\<close> of \<^verbatim>\<open>streameye.h\<close>, the start-of-image
  marker \<^verbatim>\<open>FF D8\<close>.\<close>
definition JPEG_START :: "byte list" where
  "JPEG_START = [CHR 0xFF, CHR 0xD8]"

text \<open>Modelled from the spec: \<^verbatim>\<open>JPEG_END\<close> of \<^verbatim>\<open>streameye.h\<close>, the end-of-image
  marker \<^verbatim>\<open>FF D9\<close>.\<close>
definition JPEG_END :: "byte list" where
  "JPEG_END = [CHR 0xFF, CHR 0xD9]"

text \<open>Modelled from the spec: \<^verbatim>\<open>DEF_TCP_PORT\<close> of \<^verbatim>\<open>streameye.h\<close>, the default
  port 8080.\<close>
definition DEF_TCP_PORT :: int where
  "DEF_TCP_PORT = 8080"

text \<open>Modelled from the spec: \<^verbatim>\<open>DEF_CLIENT_READ_TIMEOUT\<close> of \<^verbatim>\<open>streameye.h\<close>, ten
  seconds.\<close>
definition DEF_CLIENT_READ_TIMEOUT :: int where
  "DEF_CLIENT_READ_TIMEOUT = 10"

subsection \<open>Library routines on memory\<close>

text \<open>\<^verbatim>\<open>memmem(haystack, haystacklen, needle, needlelen)\<close>: the offset of the first
  occurrence of the needle in the haystack, \<open>None\<close> for a null result. An empty
  needle is found at offset 0.\<close>
fun memmem :: "'a list \<Rightarrow> 'a list \<Rightarrow> nat option" where
  "memmem [] needle = (if needle = [] then Some 0 else None)"
| "memmem (h # hs) needle =
     (if take (length needle) (h # hs) = needle then Some 0
      else map_option Suc (memmem hs needle))"

text \<open>\<^verbatim>\<open>memcpy(buf + off, src, length src)\<close> and \<^verbatim>\<open>memmove\<close> alike: the source
  bytes are read before any is written. The write is inside the array when
  \<open>off + length src \<le> length buf\<close>, which the callers establish.\<close>
definition memcpy :: "'a list \<Rightarrow> nat \<Rightarrow> 'a list \<Rightarrow> 'a list" where
  "memcpy buf off src = take off buf @ src @ drop (off + length src) buf"

text \<open>The needle occurs in the haystack at offset \<open>i\<close>.\<close>
definition occurs_at :: "'a list \<Rightarrow> 'a list \<Rightarrow> nat \<Rightarrow> bool" where
  "occurs_at needle hs i \<longleftrightarrow> take (length needle) (drop i hs) = needle"

subsection \<open>Program state\<close>

text \<open>The fields of \<^verbatim>\<open>client_t\<close> that \<^verbatim>\<open>streameye.c\<close> writes after the session has
  been created.\<close>
record client_t =
  c_running :: bool
  c_jpeg_ready :: bool

text \<open>Calls of the main thread that leave the process, in the order they are made.
  \<open>FrameReady\<close> marks line 389, where \<^verbatim>\<open>jpeg_buf[0 .. jpeg_size)\<close> is the frame handed to
  the clients; \<open>Register\<close> marks lines 432-433.\<close>
datatype call =
    Read
  | FrameReady "byte list"
  | CondBroadcast
  | UnlockJpeg
  | Usleep
  | LockJpeg
  | Accept
  | ThreadCreate nat
  | LockClients
  | Register nat
  | UnlockClients
  | CloseSocket
  | ThreadJoin nat
  | DestroyClients
  | DestroyJpeg
  | DestroyCond

text \<open>The pthread calls whose failure \<^verbatim>\<open>main\<close> checks.\<close>
datatype pcall =
    P_cond_broadcast
  | P_unlock_jpeg
  | P_lock_jpeg
  | P_create
  | P_lock_clients
  | P_unlock_clients
  | P_destroy_clients
  | P_destroy_jpeg
  | P_destroy_cond

text \<open>The globals of \<^verbatim>\<open>streameye.c\<close>. \<open>clients\<close> holds pointers (addresses) and
  \<open>store\<close> the structures they point to. \<open>held_jpeg\<close> and \<open>held_clients\<close> say whether
  the main thread holds \<^verbatim>\<open>jpeg_mutex\<close> and \<^verbatim>\<open>clients_mutex\<close>; every entry of \<open>trace\<close>
  is a call with the two flags as they were when the call was made.\<close>
record main_state =
  jpeg_buf :: "byte list"
  jpeg_size :: nat
  running :: bool
  clients :: "nat list"
  num_clients :: int
  store :: "nat \<Rightarrow> client_t"
  held_jpeg :: bool
  held_clients :: bool
  trace :: "(call \<times> bool \<times> bool) list"

definition logged :: "call \<Rightarrow> main_state \<Rightarrow> main_state" where
  "logged c s = s\<lparr>trace := trace s @ [(c, held_jpeg s, held_clients s)]\<rparr>"

text \<open>The accumulated bytes: \<^verbatim>\<open>jpeg_buf[0 .. jpeg_size)\<close>.\<close>
definition acc :: "main_state \<Rightarrow> byte list" where
  "acc s = take (jpeg_size s) (jpeg_buf s)"

text \<open>The frames of a trace, in the order they were made ready.\<close>
fun frames :: "(call \<times> bool \<times> bool) list \<Rightarrow> byte list list" where
  "frames [] = []"
| "frames ((FrameReady f, _) # t) = f # frames t"
| "frames (_ # t) = frames t"

subsection \<open>on_client_exit\<close>

text \<open>Lines 160-162: \<^verbatim>\<open>for (j = i; j < num_clients - 1; j++) clients[j] = clients[j + 1]\<close>.\<close>
function shift_back :: "nat list \<Rightarrow> int \<Rightarrow> nat \<Rightarrow> nat list" where
  "shift_back cs n j =
     (if int j < n - 1 then shift_back (cs[j := cs ! (j + 1)]) n (j + 1) else cs)"
  by pat_completeness auto
termination
  by (relation "measure (\<lambda>(cs, n, j). nat (n - 1 - int j))") auto

declare shift_back.simps [simp del]

text \<open>Lines 157-166: the search for the client, from index \<open>i\<close>, with the shift at
  the first hit.\<close>
function find_client :: "nat list \<Rightarrow> int \<Rightarrow> nat \<Rightarrow> nat \<Rightarrow> nat list" where
  "find_client cs n client i =
     (if int i < n
      then (if cs ! i = client then shift_back cs n i
            else find_client cs n client (i + 1))
      else cs)"
  by pat_completeness auto
termination
  by (relation "measure (\<lambda>(cs, n, client, i). nat (n - int i))") auto

declare find_client.simps [simp del]

text \<open>Lines 151-175. \<^verbatim>\<open>realloc\<close> to \<open>num_clients - 1\<close> entries keeps that many
  entries from the front; a request for no entry, or for a negative number of them,
  leaves none. Failures of the lock and of the unlock are only logged.\<close>
definition on_client_exit :: "nat \<Rightarrow> main_state \<Rightarrow> main_state" where
  "on_client_exit client s =
     (let cs = find_client (clients s) (num_clients s) client 0;
          n = num_clients s - 1
      in s\<lparr>clients := take (nat n) cs, num_clients := n\<rparr>)"

subsection \<open>The main loop\<close>

text \<open>Lines 338-348: the separator in use. Without \<^verbatim>\<open>-s\<close> it is \<^verbatim>\<open>JPEG_END\<close> followed
  by \<^verbatim>\<open>JPEG_START\<close>, four bytes.\<close>
record sep_cfg =
  auto_separator :: bool
  input_separator :: "byte list"

definition init_separator :: "byte list option \<Rightarrow> sep_cfg" where
  "init_separator arg =
     (case arg of
        None \<Rightarrow> \<lparr>auto_separator = True, input_separator = take 4 (JPEG_END @ JPEG_START)\<rparr>
      | Some sep \<Rightarrow> \<lparr>auto_separator = False, input_separator = sep\<rparr>)"

text \<open>What \<^verbatim>\<open>read(STDIN_FILENO, input_buf, INPUT_BUF_LEN)\<close> gave: the bytes read
  (none at the end of the stream), an interruption by a signal (\<^verbatim>\<open>EINTR\<close>) or
  another error.\<close>
datatype read_result = Got "byte list" | Interrupted | Failed

text \<open>What the system answers during one iteration: whether a termination signal
  arrived before the loop condition is evaluated, the result of the read, the pthread
  calls that fail, and the client that \<^verbatim>\<open>wait_for_client\<close> returns.\<close>
record iter_env =
  signalled :: bool
  read_res :: read_result
  fails :: "pcall list"
  accept_res :: "nat option"

datatype outcome = Continue main_state | Break main_state | Return int main_state

text \<open>Lines 207-215.\<close>
definition bye_handler :: "main_state \<Rightarrow> main_state" where
  "bye_handler s = (if \<not> running s then s else s\<lparr>running := False\<rparr>)"

text \<open>Lines 372-373.\<close>
definition accumulate :: "byte list \<Rightarrow> main_state \<Rightarrow> main_state" where
  "accumulate chunk s =
     s\<lparr>jpeg_buf := memcpy (jpeg_buf s) (jpeg_size s) chunk,
       jpeg_size := jpeg_size s + length chunk\<rparr>"

text \<open>Lines 376-377: the search in the last \<open>MIN(2 * INPUT_BUF_LEN, jpeg_size)\<close> bytes.
  The result is \<^verbatim>\<open>sep - jpeg_buf\<close>.\<close>
definition sep_search :: "params \<Rightarrow> sep_cfg \<Rightarrow> main_state \<Rightarrow> nat option" where
  "sep_search P cfg s =
     (let w = min (2 * INPUT_BUF_LEN P) (jpeg_size s);
          start = jpeg_size s - w
      in map_option (\<lambda>j. start + j)
           (memmem (take w (drop start (jpeg_buf s))) (input_separator cfg)))"

text \<open>Lines 380-387: the length of the frame and of the remainder, and line 415: where
  the remainder starts.\<close>
definition frame_len :: "sep_cfg \<Rightarrow> nat \<Rightarrow> nat" where
  "frame_len cfg k = (if auto_separator cfg then k + 2 else k)"

definition rem_len :: "sep_cfg \<Rightarrow> nat \<Rightarrow> nat \<Rightarrow> int" where
  "rem_len cfg sz k =
     (if auto_separator cfg then int sz - int k - 2
      else int sz - int k - int (length (input_separator cfg)))"

definition rem_start :: "sep_cfg \<Rightarrow> nat \<Rightarrow> nat" where
  "rem_start cfg k = k + (if auto_separator cfg then 2 else length (input_separator cfg))"

text \<open>Lines 391-393.\<close>
definition mark_ready :: "main_state \<Rightarrow> main_state" where
  "mark_ready s =
     s\<lparr>store := fold (\<lambda>p st. st(p := (st p)\<lparr>c_jpeg_ready := True\<rparr>))
                  (take (nat (num_clients s)) (clients s)) (store s)\<rparr>"

text \<open>Lines 379-417, entered with \<^verbatim>\<open>sep - jpeg_buf = k\<close>.\<close>
definition publish :: "sep_cfg \<Rightarrow> iter_env \<Rightarrow> nat \<Rightarrow> main_state \<Rightarrow> (int \<times> main_state) + main_state" where
  "publish cfg env k s =
     (let r = rem_len cfg (jpeg_size s) k;
          s1 = s\<lparr>jpeg_size := frame_len cfg k\<rparr>;
          s2 = mark_ready (logged (FrameReady (acc s1)) s1);
          s3 = logged CondBroadcast s2
      in if P_cond_broadcast \<in> set (fails env) then Inl (- 1, s3)
         else let s4 = logged UnlockJpeg s3
      in if P_unlock_jpeg \<in> set (fails env) then Inl (- 1, s4)
         else let s5 = logged Usleep (s4\<lparr>held_jpeg := False\<rparr>);
                  s6 = logged LockJpeg s5
      in if P_lock_jpeg \<in> set (fails env) then Inl (- 1, s6)
         else let s7 = s6\<lparr>held_jpeg := True\<rparr>
      in Inr (s7\<lparr>jpeg_buf := memcpy (jpeg_buf s7) 0
                                (take (nat r) (drop (rem_start cfg k) (jpeg_buf s7))),
                  jpeg_size := nat r\<rparr>))"

text \<open>Lines 420-441.\<close>
definition accept_client :: "iter_env \<Rightarrow> main_state \<Rightarrow> outcome" where
  "accept_client env s =
     (let s1 = logged Accept s
      in case accept_res env of
           None \<Rightarrow> Continue s1
         | Some client \<Rightarrow>
             (let s2 = logged (ThreadCreate client) s1
              in if P_create \<in> set (fails env) then Return (- 1) s2
                 else let s3 = logged LockClients s2
              in if P_lock_clients \<in> set (fails env) then Return (- 1) s3
                 else let s4 = logged (Register client) (s3\<lparr>held_clients := True\<rparr>);
                          s5 = s4\<lparr>clients := take (nat (num_clients s4)) (clients s4) @ [client],
                                  num_clients := num_clients s4 + 1\<rparr>;
                          s6 = logged UnlockClients s5
              in if P_unlock_clients \<in> set (fails env) then Return (- 1) s6
                 else Continue (s6\<lparr>held_clients := False\<rparr>)))"

text \<open>Lines 351-441: one iteration of the loop body.\<close>
definition main_iteration :: "params \<Rightarrow> sep_cfg \<Rightarrow> iter_env \<Rightarrow> main_state \<Rightarrow> outcome" where
  "main_iteration P cfg env s =
     (let s1 = logged Read s
      in case read_res env of
           Interrupted \<Rightarrow> Break (bye_handler s1)
         | Failed \<Rightarrow> Return (- 1) s1
         | Got chunk \<Rightarrow>
             if length chunk = 0 then Break (s1\<lparr>running := False\<rparr>)
             else if int (length chunk) > int (JPEG_BUF_LEN P) - 1 - int (jpeg_size s1)
             then Continue (s1\<lparr>jpeg_size := 0\<rparr>)
             else let s2 = accumulate chunk s1
                  in case sep_search P cfg s2 of
                       None \<Rightarrow> accept_client env s2
                     | Some k \<Rightarrow>
                         (case publish cfg env k s2 of
                            Inl (r, s3) \<Rightarrow> Return r s3
                          | Inr s3 \<Rightarrow> accept_client env s3))"

text \<open>Lines 444-482: what follows the loop.\<close>
definition shutdown :: "pcall list \<Rightarrow> main_state \<Rightarrow> int \<times> main_state" where
  "shutdown fl s =
     (let s1 = logged CloseSocket s;
          cs = take (nat (num_clients s1)) (clients s1);
          s2 = s1\<lparr>store := fold (\<lambda>p st. st(p := (st p)\<lparr>c_running := False, c_jpeg_ready := True\<rparr>))
                             cs (store s1)\<rparr>;
          s3 = logged CondBroadcast s2
      in if P_cond_broadcast \<in> set fl then (- 1, s3)
         else let s4 = logged UnlockJpeg s3
      in if P_unlock_jpeg \<in> set fl then (- 1, s4)
         else let s5 = fold (\<lambda>p. logged (ThreadJoin p)) cs (s4\<lparr>held_jpeg := False\<rparr>);
                  s6 = logged DestroyClients s5
      in if P_destroy_clients \<in> set fl then (- 1, s6)
         else let s7 = logged DestroyJpeg s6
      in if P_destroy_jpeg \<in> set fl then (- 1, s7)
         else let s8 = logged DestroyCond s7
      in if P_destroy_cond \<in> set fl then (- 1, s8)
         else (0, s8))"

text \<open>The run of \<^verbatim>\<open>main\<close> from line 350 on, against the answers of the system, one
  element of the list for each evaluation of the loop condition. \<open>Pending\<close>: the answers
  are used up and the loop is still running. \<open>Exited\<close>: \<^verbatim>\<open>main\<close> returned.\<close>
datatype run = Pending main_state | Exited int main_state

fun main_loop :: "params \<Rightarrow> sep_cfg \<Rightarrow> iter_env list \<Rightarrow> main_state \<Rightarrow> run" where
  "main_loop P cfg [] s = Pending s"
| "main_loop P cfg (env # envs) s =
     (let s0 = (if signalled env then bye_handler s else s)
      in if \<not> running s0 then (case shutdown (fails env) s0 of (r, s') \<Rightarrow> Exited r s')
         else case main_iteration P cfg env s0 of
                Continue s' \<Rightarrow> main_loop P cfg envs s'
              | Break s' \<Rightarrow> (case shutdown (fails env) s' of (r, s') \<Rightarrow> Exited r s')
              | Return r s' \<Rightarrow> Exited r s')"

text \<open>The state at line 350: the globals as initialised, \<^verbatim>\<open>jpeg_mutex\<close> locked at
  line 329.\<close>
definition init_state :: "params \<Rightarrow> main_state" where
  "init_state P =
     \<lparr>jpeg_buf = replicate (JPEG_BUF_LEN P) (CHR 0x00), jpeg_size = 0, running = True,
      clients = [], num_clients = 0,
      store = (\<lambda>_. \<lparr>c_running = False, c_jpeg_ready = False\<rparr>),
      held_jpeg = True, held_clients = False, trace = []\<rparr>"

text \<open>The loop is entered, and every iteration that continues leaves it, with the array
  of \<^verbatim>\<open>JPEG_BUF_LEN\<close> bytes, fewer than \<^verbatim>\<open>JPEG_BUF_LEN\<close> of them in use, \<^verbatim>\<open>jpeg_mutex\<close>
  held, \<^verbatim>\<open>clients_mutex\<close> free and \<^verbatim>\<open>num_clients\<close> the number of entries of the
  registry.\<close>
definition state_ok :: "params \<Rightarrow> main_state \<Rightarrow> bool" where
  "state_ok P s \<longleftrightarrow>
     length (jpeg_buf s) = JPEG_BUF_LEN P \<and> jpeg_size s < JPEG_BUF_LEN P \<and>
     held_jpeg s \<and> \<not> held_clients s \<and> num_clients s = int (length (clients s))"

subsection \<open>Command line\<close>

text \<open>The statics that the options set (lines 40-43 and 50).\<close>
record options =
  client_read_timeout :: int
  tcp_port :: int
  listen_localhost :: bool
  separator_arg :: "byte list option"
  log_level :: int

definition init_options :: options where
  "init_options =
     \<lparr>client_read_timeout = DEF_CLIENT_READ_TIMEOUT, tcp_port = 0, listen_localhost = False,
      separator_arg = None, log_level = 1\<rparr>"

text \<open>\<^verbatim>\<open>strtol(str, &err, 10)\<close> in the C locale on a machine with a 64-bit \<^verbatim>\<open>long\<close>:
  white space, an optional sign, decimal digits; the result is the value, held within
  the range of \<^verbatim>\<open>long\<close>, and the text from \<^verbatim>\<open>err\<close> on. Without a digit the value is 0
  and \<^verbatim>\<open>err\<close> is the start of the string.\<close>
definition isspace :: "char \<Rightarrow> bool" where
  "isspace c \<longleftrightarrow> c \<in> set [CHR '' '', CHR 0x09, CHR 0x0A, CHR 0x0B, CHR 0x0C, CHR 0x0D]"

definition isdigit :: "char \<Rightarrow> bool" where
  "isdigit c \<longleftrightarrow> of_char (CHR ''0'') \<le> (of_char c :: nat) \<and> (of_char c :: nat) \<le> of_char (CHR ''9'')"

fun strtol_digits :: "int \<Rightarrow> string \<Rightarrow> int \<times> string" where
  "strtol_digits v [] = (v, [])"
| "strtol_digits v (c # cs) =
     (if isdigit c then strtol_digits (10 * v + (of_char c - of_char (CHR ''0''))) cs
      else (v, c # cs))"

definition strtol :: "string \<Rightarrow> int \<times> string" where
  "strtol str =
     (let t = dropWhile isspace str;
          neg = (t \<noteq> [] \<and> hd t = CHR ''-'');
          u = (if t \<noteq> [] \<and> (hd t = CHR ''-'' \<or> hd t = CHR ''+'') then tl t else t)
      in if u = [] \<or> \<not> isdigit (hd u) then (0, str)
         else case strtol_digits 0 u of
                (v, rest) \<Rightarrow> (max (- (2 ^ 63)) (min (2 ^ 63 - 1) (if neg then - v else v)), rest))"

text \<open>The conversion of a \<^verbatim>\<open>long\<close> to a 32-bit \<^verbatim>\<open>int\<close> on assignment.\<close>
definition int_of_long :: "int \<Rightarrow> int" where
  "int_of_long v = (v + 2 ^ 31) mod 2 ^ 32 - 2 ^ 31"

text \<open>Lines 224-270: the loop over the options that \<^verbatim>\<open>getopt\<close> returns, each with its
  \<^verbatim>\<open>optarg\<close>. \<open>Inl\<close> is a return from \<^verbatim>\<open>main\<close> with that value.\<close>
fun parse_opts :: "(char \<times> string) list \<Rightarrow> options \<Rightarrow> int + options" where
  "parse_opts [] opts = Inr opts"
| "parse_opts ((c, optarg) # rest) opts =
     (if c = CHR ''d'' then parse_opts rest (opts\<lparr>log_level := 2\<rparr>)
      else if c = CHR ''h'' then Inl 0
      else if c = CHR ''l'' then parse_opts rest (opts\<lparr>listen_localhost := True\<rparr>)
      else if c = CHR ''p'' then
        (case strtol optarg of
           (v, err) \<Rightarrow> if err \<noteq> [] then Inl (- 1)
                       else parse_opts rest (opts\<lparr>tcp_port := int_of_long v\<rparr>))
      else if c = CHR ''q'' then parse_opts rest (opts\<lparr>log_level := 0\<rparr>)
      else if c = CHR ''s'' then parse_opts rest (opts\<lparr>separator_arg := Some optarg\<rparr>)
      else if c = CHR ''t'' then
        (case strtol optarg of
           (v, err) \<Rightarrow> if err \<noteq> [] then Inl (- 1)
                       else parse_opts rest (opts\<lparr>client_read_timeout := int_of_long v\<rparr>))
      else Inl (- 1))"

text \<open>Lines 224-274: the options, then the default port where \<^verbatim>\<open>tcp_port\<close> is 0.\<close>
definition main_args :: "(char \<times> string) list \<Rightarrow> int + options" where
  "main_args args =
     (case parse_opts args init_options of
        Inl r \<Rightarrow> Inl r
      | Inr opts \<Rightarrow> Inr (if tcp_port opts = 0 then opts\<lparr>tcp_port := DEF_TCP_PORT\<rparr> else opts))"

text \<open>Line 89: the port that \<^verbatim>\<open>htons(tcp_port)\<close> gives to \<^verbatim>\<open>bind\<close>, sixteen bits.\<close>
definition listen_port :: "options \<Rightarrow> int" where
  "listen_port opts = tcp_port opts mod 65536"

text \<open>Small instances of the constants and of the answers of the system, for concrete
  runs: four-byte reads into a sixteen-byte buffer, and a read that gives a chunk while
  nothing else happens.\<close>
definition small_params :: params where
  "small_params = \<lparr>INPUT_BUF_LEN = 4, JPEG_BUF_LEN = 16\<rparr>"

definition reading :: "byte list \<Rightarrow> iter_env" where
  "reading chunk = \<lparr>signalled = False, read_res = Got chunk, fails = [], accept_res = None\<rparr>"

text \<open>The state in which a run stands or ended.\<close>
fun run_state :: "run \<Rightarrow> main_state" where
  "run_state (Pending s) = s"
| "run_state (Exited r s) = s"

fun outcome_state :: "outcome \<Rightarrow> main_state" where
  "outcome_state (Continue s) = s"
| "outcome_state (Break s) = s"
| "outcome_state (Return r s) = s"




text \<open>A frame that leaves at least two bytes of the buffer unused, and at least three
  when the separator is the automatic one.\<close>
definition short_frame :: "params \<Rightarrow> byte list option \<Rightarrow> byte list \<Rightarrow> bool" where
  "short_frame P arg f \<longleftrightarrow>
     length f + 2 \<le> JPEG_BUF_LEN P \<and> (arg = None \<longrightarrow> length f + 3 \<le> JPEG_BUF_LEN P)"

text \<open>The calls that the main thread makes without \<^verbatim>\<open>jpeg_mutex\<close>: the sleep after a
  frame has been made ready and the lock that ends it, and, after the loop, the joins and
  the destruction of the synchronisation objects.\<close>
definition unlocked_call :: "call \<Rightarrow> bool" where
  "unlocked_call c =
     (case c of Usleep \<Rightarrow> True | LockJpeg \<Rightarrow> True | ThreadJoin p \<Rightarrow> True
      | DestroyClients \<Rightarrow> True | DestroyJpeg \<Rightarrow> True | DestroyCond \<Rightarrow> True | _ \<Rightarrow> False)"

text \<open>The calls of lines 432-437, made with \<^verbatim>\<open>clients_mutex\<close> held.\<close>
definition registering_call :: "call \<Rightarrow> bool" where
  "registering_call c = (case c of Register p \<Rightarrow> True | UnlockClients \<Rightarrow> True | _ \<Rightarrow> False)"

text \<open>An entry of the trace in which a read is made with \<^verbatim>\<open>jpeg_mutex\<close> held, and in
  which only the calls above are made without it.\<close>
definition producer_entry_ok :: "call \<times> bool \<times> bool \<Rightarrow> bool" where
  "producer_entry_ok e =
     (case e of (c, hj, hc) \<Rightarrow> (c = Read \<longrightarrow> hj) \<and> (\<not> hj \<longrightarrow> unlocked_call c))"

text \<open>An entry of the trace in which \<^verbatim>\<open>clients_mutex\<close> is held only inside \<^verbatim>\<open>jpeg_mutex\<close>
  and only for the registration of a client, and in which \<^verbatim>\<open>jpeg_mutex\<close> is not requested
  while \<^verbatim>\<open>clients_mutex\<close> is held.\<close>
definition lock_order_ok :: "call \<times> bool \<times> bool \<Rightarrow> bool" where
  "lock_order_ok e =
     (case e of (c, hj, hc) \<Rightarrow> (hc \<longrightarrow> hj \<and> registering_call c) \<and> (c = LockJpeg \<longrightarrow> \<not> hc))"



text \<open>Both conditions on an entry of the trace.\<close>
definition entry_ok :: "call \<times> bool \<times> bool \<Rightarrow> bool" where
  "entry_ok e \<longleftrightarrow> producer_entry_ok e \<and> lock_order_ok e"

section \<open>Properties\<close>

subsection \<open>Traces, searches and copies\<close>

lemma frames_append: "frames (xs @ ys) = frames xs @ frames ys"
  by (induction xs rule: frames.induct) simp_all

lemma occurs_at_Cons_Suc: "occurs_at n (h # hs) (Suc i) = occurs_at n hs i"
  by (simp add: occurs_at_def)

lemma occurs_at_bound: "occurs_at n hs i \<Longrightarrow> n \<noteq> [] \<Longrightarrow> i + length n \<le> length hs"
proof -
  assume a: "occurs_at n hs i" and ne: "n \<noteq> []"
  have "length (take (length n) (drop i hs)) = length n"
    using a by (simp add: occurs_at_def)
  then have "min (length n) (length hs - i) = length n" by simp
  moreover have "0 < length n" using ne by simp
  ultimately show ?thesis by arith
qed

lemma occurs_at_drop: "occurs_at n (drop d hs) j = occurs_at n hs (d + j)"
  by (simp add: occurs_at_def add.commute)

lemma memmem_Some_iff:
  "memmem hs n = Some j \<longleftrightarrow> occurs_at n hs j \<and> j \<le> length hs \<and> (\<forall>i<j. \<not> occurs_at n hs i)"
proof (induction hs arbitrary: j)
  case Nil
  show ?case by (auto simp: occurs_at_def)
next
  case (Cons h hs)
  show ?case
  proof (cases "take (length n) (h # hs) = n")
    case True
    then have o: "occurs_at n (h # hs) 0" by (simp add: occurs_at_def)
    have "j = 0" if "\<forall>i<j. \<not> occurs_at n (h # hs) i"
      using that o by (cases j) auto
    then show ?thesis using True o by auto
  next
    case False
    then have o: "\<not> occurs_at n (h # hs) 0" by (simp add: occurs_at_def)
    show ?thesis
    proof (cases j)
      case 0
      then show ?thesis using False o by auto
    next
      case (Suc j')
      have "(\<forall>i<Suc j'. \<not> occurs_at n (h # hs) i) \<longleftrightarrow> (\<forall>i<j'. \<not> occurs_at n hs i)"
        using o by (auto simp: less_Suc_eq_0_disj occurs_at_Cons_Suc)
      then show ?thesis using False Suc Cons.IH [of j']
        by (auto simp: occurs_at_Cons_Suc)
    qed
  qed
qed

lemma memmem_None_iff: "memmem hs n = None \<longleftrightarrow> (\<forall>i. \<not> occurs_at n hs i)"
proof (induction hs)
  case Nil
  show ?case by (auto simp: occurs_at_def)
next
  case (Cons h hs)
  have "(\<forall>i. \<not> occurs_at n (h # hs) i) \<longleftrightarrow> \<not> occurs_at n (h # hs) 0 \<and> (\<forall>i. \<not> occurs_at n hs i)"
    by (metis occurs_at_Cons_Suc not0_implies_Suc)
  then show ?case using Cons by (auto simp: occurs_at_def)
qed

lemma memmem_Some_bound: "memmem hs n = Some j \<Longrightarrow> j + length n \<le> length hs"
  by (cases "n = []") (auto simp: memmem_Some_iff dest: occurs_at_bound)

lemma acc_accumulate:
  "jpeg_size s + length chunk \<le> length (jpeg_buf s) \<Longrightarrow> acc (accumulate chunk s) = acc s @ chunk"
  by (simp add: acc_def accumulate_def memcpy_def)

lemma length_accumulate:
  "jpeg_size s + length chunk \<le> length (jpeg_buf s) \<Longrightarrow>
   length (jpeg_buf (accumulate chunk s)) = length (jpeg_buf s)"
  by (simp add: accumulate_def memcpy_def)

lemma sep_search_acc:
  "jpeg_size s \<le> length (jpeg_buf s) \<Longrightarrow>
   sep_search P cfg s =
     map_option (\<lambda>j. length (acc s) - 2 * INPUT_BUF_LEN P + j)
       (memmem (drop (length (acc s) - 2 * INPUT_BUF_LEN P) (acc s)) (input_separator cfg))"
proof -
  assume le: "jpeg_size s \<le> length (jpeg_buf s)"
  let ?w = "min (2 * INPUT_BUF_LEN P) (jpeg_size s)"
  have len: "length (acc s) = jpeg_size s" using le by (simp add: acc_def)
  have d: "jpeg_size s - ?w = jpeg_size s - 2 * INPUT_BUF_LEN P" by arith
  have w: "jpeg_size s - (jpeg_size s - 2 * INPUT_BUF_LEN P) = ?w" by arith
  have "drop (jpeg_size s - 2 * INPUT_BUF_LEN P) (acc s)
          = take ?w (drop (jpeg_size s - 2 * INPUT_BUF_LEN P) (jpeg_buf s))"
    unfolding acc_def drop_take w ..
  then show ?thesis
    unfolding sep_search_def Let_def d len by simp
qed

lemma sep_search_Some:
  assumes "jpeg_size s \<le> length (jpeg_buf s)" and "sep_search P cfg s = Some k"
  shows "occurs_at (input_separator cfg) (acc s) k \<and> k + length (input_separator cfg) \<le> jpeg_size s
    \<and> jpeg_size s - 2 * INPUT_BUF_LEN P \<le> k"
proof -
  let ?d = "length (acc s) - 2 * INPUT_BUF_LEN P"
  have len: "length (acc s) = jpeg_size s" using assms(1) by (simp add: acc_def)
  obtain j where j: "memmem (drop ?d (acc s)) (input_separator cfg) = Some j" and k: "k = ?d + j"
    using assms by (auto simp: sep_search_acc)
  have "occurs_at (input_separator cfg) (acc s) k"
    using j k by (simp add: memmem_Some_iff occurs_at_drop)
  moreover have "j + length (input_separator cfg) \<le> length (acc s) - ?d"
    using memmem_Some_bound [OF j] by simp
  ultimately show ?thesis using k len by auto
qed

lemma reading_simps:
  "signalled (reading c) = False" "read_res (reading c) = Got c"
  "fails (reading c) = []" "accept_res (reading c) = None"
  by (simp_all add: reading_def)

lemma logged_simps:
  "jpeg_buf (logged c s) = jpeg_buf s" "jpeg_size (logged c s) = jpeg_size s"
  "running (logged c s) = running s" "clients (logged c s) = clients s"
  "num_clients (logged c s) = num_clients s" "store (logged c s) = store s"
  "held_jpeg (logged c s) = held_jpeg s" "held_clients (logged c s) = held_clients s"
  "trace (logged c s) = trace s @ [(c, held_jpeg s, held_clients s)]"
  by (simp_all add: logged_def)

lemma state_ok_acc_length: "state_ok P s \<Longrightarrow> length (acc s) = jpeg_size s"
  by (simp add: state_ok_def acc_def)

lemma init_state_ok: "0 < JPEG_BUF_LEN P \<Longrightarrow> state_ok P (init_state P)"
  by (simp add: state_ok_def init_state_def)

subsection \<open>The pieces of one iteration\<close>

lemma accept_client_ok:
  assumes "fails env = []"
  shows "\<exists>s'. accept_client env s = Continue s' \<and> jpeg_buf s' = jpeg_buf s \<and>
    jpeg_size s' = jpeg_size s \<and> running s' = running s \<and> held_jpeg s' = held_jpeg s \<and>
    frames (trace s') = frames (trace s) \<and>
    (\<not> held_clients s \<longrightarrow> \<not> held_clients s') \<and>
    (num_clients s = int (length (clients s)) \<longrightarrow> num_clients s' = int (length (clients s')))"
  using assms
  by (cases "accept_res env") (simp_all add: accept_client_def Let_def logged_def frames_append)

lemma publish_ok:
  assumes "fails env = []"
  shows "\<exists>s'. publish cfg env k s = Inr s' \<and>
    frames (trace s') = frames (trace s) @ [take (frame_len cfg k) (jpeg_buf s)] \<and>
    jpeg_size s' = nat (rem_len cfg (jpeg_size s) k) \<and>
    jpeg_buf s' = memcpy (jpeg_buf s) 0
       (take (nat (rem_len cfg (jpeg_size s) k)) (drop (rem_start cfg k) (jpeg_buf s))) \<and>
    running s' = running s \<and> held_jpeg s' \<and> held_clients s' = held_clients s \<and>
    clients s' = clients s \<and> num_clients s' = num_clients s"
  using assms
  by (simp add: publish_def Let_def logged_def mark_ready_def frames_append acc_def)

lemma rem_len_start:
  "nat (rem_len cfg sz k) = sz - rem_start cfg k"
proof -
  have "nat (int a - int b - int c) = a - (b + c)" for a b c :: nat by linarith
  from this [of sz k 2] this [of sz k "length (input_separator cfg)"]
  show ?thesis by (simp add: rem_len_def rem_start_def)
qed

lemma acc_publish:
  assumes "jpeg_size s \<le> length (jpeg_buf s)"
    and s': "jpeg_size s' = nat (rem_len cfg (jpeg_size s) k)"
     "jpeg_buf s' = memcpy (jpeg_buf s) 0
       (take (nat (rem_len cfg (jpeg_size s) k)) (drop (rem_start cfg k) (jpeg_buf s)))"
  shows "acc s' = drop (rem_start cfg k) (acc s) \<and> length (jpeg_buf s') = length (jpeg_buf s)"
proof -
  let ?r = "jpeg_size s - rem_start cfg k"
  let ?m = "take ?r (drop (rem_start cfg k) (jpeg_buf s))"
  have m: "?m = drop (rem_start cfg k) (acc s)"
    by (simp add: acc_def drop_take)
  have lm: "length ?m = ?r" using assms(1) by simp
  have "acc s' = take ?r (?m @ drop ?r (jpeg_buf s))"
    using s' lm by (simp add: acc_def rem_len_start memcpy_def del: length_take length_drop)
  also have "\<dots> = ?m" using lm by (simp del: length_take length_drop)
  finally have 1: "acc s' = drop (rem_start cfg k) (acc s)" using m by simp
  have "length (jpeg_buf s') = length ?m + (length (jpeg_buf s) - ?r)"
    using s' lm by (simp add: rem_len_start memcpy_def del: length_take)
  then have "length (jpeg_buf s') = length (jpeg_buf s)" using lm assms(1) by simp
  with 1 show ?thesis by simp
qed

subsection \<open>Overflow of the accumulator\<close>



subsection \<open>A hit of the separator search\<close>

lemma acc_cong: "jpeg_buf s' = jpeg_buf s \<Longrightarrow> jpeg_size s' = jpeg_size s \<Longrightarrow> acc s' = acc s"
  by (simp add: acc_def)

lemma init_separator_simps:
  "auto_separator (init_separator arg) = (arg = None)"
  "input_separator (init_separator None) = [CHR 0xFF, CHR 0xD9, CHR 0xFF, CHR 0xD8]"
  "input_separator (init_separator (Some sep)) = sep"
  by (simp_all add: init_separator_def JPEG_END_def JPEG_START_def split: option.splits)

lemma frame_len_le:
  "k + length (input_separator (init_separator arg)) \<le> n \<Longrightarrow>
   frame_len (init_separator arg) k \<le> n \<and> rem_start (init_separator arg) k \<le> n"
  by (cases arg) (simp_all add: frame_len_def rem_start_def init_separator_simps)

text \<open>What an iteration does when the read gives a chunk that fits and the search hits.\<close>
lemma iteration_hit:
  assumes buf: "length (jpeg_buf s) = JPEG_BUF_LEN P"
    and rd: "read_res env = Got chunk" and ne: "chunk \<noteq> []" and nf: "fails env = []"
    and fit: "\<not> int (length chunk) > int (JPEG_BUF_LEN P) - 1 - int (jpeg_size s)"
    and hit: "sep_search P (init_separator arg) (accumulate chunk (logged Read s)) = Some k"
  shows "\<exists>s'. main_iteration P (init_separator arg) env s = Continue s' \<and>
     occurs_at (input_separator (init_separator arg)) (acc s @ chunk) k \<and>
     k + length (input_separator (init_separator arg)) \<le> length (acc s @ chunk) \<and>
     frames (trace s') = frames (trace s) @ [take (frame_len (init_separator arg) k) (acc s @ chunk)] \<and>
     acc s' = drop (rem_start (init_separator arg) k) (acc s @ chunk) \<and>
     length (jpeg_buf s') = JPEG_BUF_LEN P \<and> jpeg_size s' = length (acc s') \<and>
     running s' = running s \<and> held_jpeg s' \<and> (\<not> held_clients s \<longrightarrow> \<not> held_clients s') \<and>
     (num_clients s = int (length (clients s)) \<longrightarrow> num_clients s' = int (length (clients s')))"
proof -
  let ?cfg = "init_separator arg"
  let ?s1 = "logged Read s"
  let ?s2 = "accumulate chunk ?s1"
  have s1: "jpeg_buf ?s1 = jpeg_buf s" "jpeg_size ?s1 = jpeg_size s"
    by (simp_all add: logged_def)
  have room: "jpeg_size ?s1 + length chunk \<le> length (jpeg_buf ?s1)"
    using fit buf s1 by simp
  have acc2: "acc ?s2 = acc s @ chunk"
    using acc_accumulate [OF room] acc_cong [OF s1] by simp
  have len2: "length (jpeg_buf ?s2) = JPEG_BUF_LEN P"
    using length_accumulate [OF room] s1 buf by simp
  have sz2: "jpeg_size ?s2 = jpeg_size s + length chunk"
    by (simp add: accumulate_def logged_def)
  have le2: "jpeg_size ?s2 \<le> length (jpeg_buf ?s2)"
    using len2 sz2 fit by simp
  have lacc2: "length (acc ?s2) = jpeg_size ?s2"
    using le2 by (simp add: acc_def)
  from sep_search_Some [OF le2 hit]
  have occ: "occurs_at (input_separator ?cfg) (acc ?s2) k"
    and kb: "k + length (input_separator ?cfg) \<le> jpeg_size ?s2" by simp_all
  from publish_ok [OF nf, of ?cfg k ?s2] obtain s3 where
    p: "publish ?cfg env k ?s2 = Inr s3"
    and f3: "frames (trace s3) = frames (trace ?s2) @ [take (frame_len ?cfg k) (jpeg_buf ?s2)]"
    and sz3: "jpeg_size s3 = nat (rem_len ?cfg (jpeg_size ?s2) k)"
    and b3: "jpeg_buf s3 = memcpy (jpeg_buf ?s2) 0
       (take (nat (rem_len ?cfg (jpeg_size ?s2) k)) (drop (rem_start ?cfg k) (jpeg_buf ?s2)))"
    and o3: "running s3 = running ?s2" "held_jpeg s3" "held_clients s3 = held_clients ?s2"
      "clients s3 = clients ?s2" "num_clients s3 = num_clients ?s2"
    by blast
  from acc_publish [OF le2 sz3 b3]
  have acc3: "acc s3 = drop (rem_start ?cfg k) (acc ?s2)"
    and len3: "length (jpeg_buf s3) = length (jpeg_buf ?s2)" by simp_all
  have fl: "frame_len ?cfg k \<le> jpeg_size ?s2" using frame_len_le [OF kb] by simp
  have fr: "take (frame_len ?cfg k) (jpeg_buf ?s2) = take (frame_len ?cfg k) (acc ?s2)"
    using fl by (simp add: acc_def min_def)
  from accept_client_ok [OF nf, of s3] obtain s' where
    a: "accept_client env s3 = Continue s'"
    and b': "jpeg_buf s' = jpeg_buf s3" "jpeg_size s' = jpeg_size s3"
    and o': "running s' = running s3" "held_jpeg s' = held_jpeg s3"
      "frames (trace s') = frames (trace s3)" "\<not> held_clients s3 \<longrightarrow> \<not> held_clients s'"
      "num_clients s3 = int (length (clients s3)) \<longrightarrow> num_clients s' = int (length (clients s'))"
    by blast
  have it: "main_iteration P ?cfg env s = Continue s'"
    using rd ne fit hit p a s1 by (simp add: main_iteration_def Let_def)
  have t2: "frames (trace ?s2) = frames (trace s)"
    by (simp add: accumulate_def logged_def frames_append)
  have other2: "running ?s2 = running s" "held_clients ?s2 = held_clients s"
    "clients ?s2 = clients s" "num_clients ?s2 = num_clients s"
    by (simp_all add: accumulate_def logged_def)
  have acc': "acc s' = drop (rem_start ?cfg k) (acc s @ chunk)"
    using acc_cong [OF b'] acc3 acc2 by simp
  have "jpeg_size s' = length (acc s')"
    using b' sz3 acc' lacc2 acc2 by (simp add: rem_len_start)
  then show ?thesis
    using it occ kb acc2 lacc2 f3 fr t2 acc' len3 len2 b' o3 o' other2 by auto
qed

text \<open>
  Claim C1. In a state of the loop, let the read give a chunk that fits, let the
  search find the separator at offset \<open>k\<close> of the accumulator, which is the old
  accumulator followed by the chunk, and let no pthread call fail. Then the iteration
  continues and the separator does occur at \<open>k\<close>. Without \<^verbatim>\<open>-s\<close>
  the frame made ready is bytes \<open>[0, k + 2)\<close> and the accumulator kept is bytes
  \<open>[k + 2, end)\<close>; with \<^verbatim>\<open>-s sep\<close> the frame is bytes \<open>[0, k)\<close> and the accumulator kept is
  bytes \<open>[k + length sep, end)\<close>.
\<close>
theorem separator_hit_splits_accumulator:
  assumes "state_ok P s" and "read_res env = Got chunk" and "chunk \<noteq> []" and "fails env = []"
    and "\<not> int (length chunk) > int (JPEG_BUF_LEN P) - 1 - int (jpeg_size s)"
    and "sep_search P (init_separator arg) (accumulate chunk (logged Read s)) = Some k"
  shows "\<exists>s'. main_iteration P (init_separator arg) env s = Continue s' \<and>
     occurs_at (input_separator (init_separator arg)) (acc s @ chunk) k \<and>
     (case arg of
        None \<Rightarrow> frames (trace s') = frames (trace s) @ [take (k + 2) (acc s @ chunk)] \<and>
                 acc s' = drop (k + 2) (acc s @ chunk)
      | Some sep \<Rightarrow> frames (trace s') = frames (trace s) @ [take k (acc s @ chunk)] \<and>
                 acc s' = drop (k + length sep) (acc s @ chunk))"
proof -
  have buf: "length (jpeg_buf s) = JPEG_BUF_LEN P" using assms(1) by (simp add: state_ok_def)
  from iteration_hit [OF buf assms(2-6)] obtain s' where
    "main_iteration P (init_separator arg) env s = Continue s'"
    "occurs_at (input_separator (init_separator arg)) (acc s @ chunk) k"
    "frames (trace s') = frames (trace s) @ [take (frame_len (init_separator arg) k) (acc s @ chunk)]"
    "acc s' = drop (rem_start (init_separator arg) k) (acc s @ chunk)"
    by blast
  then show ?thesis
    by (cases arg) (simp_all add: frame_len_def rem_start_def init_separator_simps)
qed

theorem separator_hit_splits_accumulator_witness:
  "\<exists>s'. main_iteration small_params (init_separator None)
            (reading [CHR ''a'', CHR 0xFF, CHR 0xD9, CHR 0xFF, CHR 0xD8, CHR ''b''])
            (init_state small_params) = Continue s' \<and>
     frames (trace s') = [[CHR ''a'', CHR 0xFF, CHR 0xD9]] \<and>
     acc s' = [CHR 0xFF, CHR 0xD8, CHR ''b'']"
  using separator_hit_splits_accumulator [of small_params "init_state small_params"
      "reading [CHR ''a'', CHR 0xFF, CHR 0xD9, CHR 0xFF, CHR 0xD8, CHR ''b'']"
      "[CHR ''a'', CHR 0xFF, CHR 0xD9, CHR 0xFF, CHR 0xD8, CHR ''b'']" None 1]
  by (auto simp add: small_params_def reading_def init_state_def state_ok_def accumulate_def
      logged_def memcpy_def sep_search_def init_separator_simps acc_def)

subsection \<open>The window of the separator search\<close>

lemmas run_defs = small_params_def reading_def init_state_def main_iteration_def Let_def
  logged_def accumulate_def memcpy_def sep_search_def publish_def accept_client_def
  frame_len_def rem_len_def rem_start_def mark_ready_def acc_def init_separator_simps

lemma memmem_drop:
  assumes "\<forall>i<d. \<not> occurs_at n hs i" and "d \<le> length hs"
  shows "memmem hs n = map_option (\<lambda>j. d + j) (memmem (drop d hs) n)"
proof (cases "memmem (drop d hs) n")
  case None
  then have "\<forall>j. \<not> occurs_at n hs (d + j)"
    by (simp add: memmem_None_iff occurs_at_drop)
  then have "\<forall>i. \<not> occurs_at n hs i"
    using assms(1) by (metis le_add_diff_inverse not_le)
  then have "memmem hs n = None" by (simp add: memmem_None_iff)
  then show ?thesis using None by simp
next
  case (Some j)
  then have o: "occurs_at n hs (d + j)" and b: "j \<le> length hs - d"
    and f: "\<forall>i<j. \<not> occurs_at n hs (d + i)"
    by (simp_all add: memmem_Some_iff occurs_at_drop)
  have "\<not> occurs_at n hs i" if "i < d + j" for i
  proof (cases "i < d")
    case True
    then show ?thesis using assms(1) by simp
  next
    case False
    then have "i = d + (i - d)" "i - d < j" using that by simp_all
    then show ?thesis using f by metis
  qed
  then have "memmem hs n = Some (d + j)"
    using o b assms(2) by (simp add: memmem_Some_iff)
  then show ?thesis using Some by simp
qed

lemma occurs_at_append_left:
  assumes "occurs_at n (xs @ ys) i" and "i + length n \<le> length xs"
  shows "occurs_at n xs i"
  using assms by (simp add: occurs_at_def)

text \<open>The window of the search loses nothing when the accumulator held no separator
  before the read.\<close>
lemma window_search_complete:
  assumes ok: "state_ok P s"
    and fit: "\<not> int (length chunk) > int (JPEG_BUF_LEN P) - 1 - int (jpeg_size s)"
    and chunk: "length chunk \<le> INPUT_BUF_LEN P"
    and sep: "length (input_separator cfg) \<le> INPUT_BUF_LEN P + 1"
    and clean: "\<forall>i. \<not> occurs_at (input_separator cfg) (acc s) i"
  shows "sep_search P cfg (accumulate chunk (logged Read s)) = memmem (acc s @ chunk) (input_separator cfg)"
proof -
  let ?n = "input_separator cfg"
  let ?s1 = "logged Read s"
  let ?s2 = "accumulate chunk ?s1"
  let ?A = "acc s @ chunk"
  let ?d = "length ?A - 2 * INPUT_BUF_LEN P"
  have buf: "length (jpeg_buf s) = JPEG_BUF_LEN P" using ok by (simp add: state_ok_def)
  have s1: "jpeg_buf ?s1 = jpeg_buf s" "jpeg_size ?s1 = jpeg_size s"
    by (simp_all add: logged_def)
  have room: "jpeg_size ?s1 + length chunk \<le> length (jpeg_buf ?s1)"
    using fit buf s1 by simp
  have acc2: "acc ?s2 = ?A"
    using acc_accumulate [OF room] acc_cong [OF s1] by simp
  have le2: "jpeg_size ?s2 \<le> length (jpeg_buf ?s2)"
    using length_accumulate [OF room] room by (simp add: accumulate_def)
  have la: "length (acc s) = jpeg_size s" using room s1 by (simp add: acc_def)
  have ne: "?n \<noteq> []"
  proof
    assume "?n = []"
    then have "occurs_at ?n (acc s) 0" by (simp add: occurs_at_def)
    then show False using clean by simp
  qed
  have early: "\<not> occurs_at ?n ?A i" if "i < ?d" for i
  proof
    assume o: "occurs_at ?n ?A i"
    have "i + length ?n \<le> length (acc s)"
      using that chunk sep by simp
    from occurs_at_append_left [OF o this] show False using clean by simp
  qed
  have "memmem ?A ?n = map_option (\<lambda>j. ?d + j) (memmem (drop ?d ?A) ?n)"
    by (rule memmem_drop) (use early in simp_all)
  then show ?thesis
    using sep_search_acc [OF le2, of P cfg] acc2 by simp
qed

text \<open>
  Claim C2, as the code has it. Let the accumulator hold no occurrence of the separator
  before the read, let the separator be at most \<open>INPUT_BUF_LEN + 1\<close> bytes long and the
  chunk at most \<open>INPUT_BUF_LEN\<close> bytes. Then the search in the last
  \<open>min (2 * INPUT_BUF_LEN) jpeg_size\<close> bytes gives what a search of the whole accumulator
  gives: the first occurrence, wherever the two reads divide it, and no hit only when
  there is none.
\<close>
theorem window_search_finds_first_occurrence:
  assumes ok: "state_ok P s"
    and fit: "\<not> int (length chunk) > int (JPEG_BUF_LEN P) - 1 - int (jpeg_size s)"
    and chunk: "length chunk \<le> INPUT_BUF_LEN P"
    and sep: "length (input_separator cfg) \<le> INPUT_BUF_LEN P + 1"
    and clean: "\<forall>i. \<not> occurs_at (input_separator cfg) (acc s) i"
  shows "sep_search P cfg (accumulate chunk (logged Read s)) = memmem (acc s @ chunk) (input_separator cfg) \<and>
    (case sep_search P cfg (accumulate chunk (logged Read s)) of
       None \<Rightarrow> \<forall>i. \<not> occurs_at (input_separator cfg) (acc s @ chunk) i
     | Some k \<Rightarrow> occurs_at (input_separator cfg) (acc s @ chunk) k \<and>
                 (\<forall>i<k. \<not> occurs_at (input_separator cfg) (acc s @ chunk) i))"
proof -
  have eq: "sep_search P cfg (accumulate chunk (logged Read s)) = memmem (acc s @ chunk) (input_separator cfg)"
    using assms by (rule window_search_complete)
  show ?thesis
  proof (cases "memmem (acc s @ chunk) (input_separator cfg)")
    case None
    then show ?thesis using eq by (simp add: memmem_None_iff [symmetric])
  next
    case (Some k)
    then have "occurs_at (input_separator cfg) (acc s @ chunk) k \<and>
        (\<forall>i<k. \<not> occurs_at (input_separator cfg) (acc s @ chunk) i)"
      by (simp add: memmem_Some_iff)
    then show ?thesis using eq Some by simp
  qed
qed

theorem window_search_finds_first_occurrence_witness:
  "sep_search small_params (init_separator None)
     (accumulate [CHR 0xFF, CHR 0xD8, CHR ''b'']
        (logged Read ((init_state small_params)
           \<lparr>jpeg_buf := [CHR ''a'', CHR 0xFF, CHR 0xD9] @ replicate 13 (CHR 0x00), jpeg_size := 3\<rparr>)))
   = Some 1"
proof -
  let ?s = "(init_state small_params)
           \<lparr>jpeg_buf := [CHR ''a'', CHR 0xFF, CHR 0xD9] @ replicate 13 (CHR 0x00), jpeg_size := 3\<rparr>"
  have clean: "\<forall>i. \<not> occurs_at (input_separator (init_separator None)) (acc ?s) i"
    by (rule memmem_None_iff [THEN iffD1]) (simp add: acc_def init_separator_simps)
  have "sep_search small_params (init_separator None)
          (accumulate [CHR 0xFF, CHR 0xD8, CHR ''b''] (logged Read ?s))
        = memmem (acc ?s @ [CHR 0xFF, CHR 0xD8, CHR ''b'']) (input_separator (init_separator None))"
    by (rule window_search_finds_first_occurrence [OF _ _ _ _ clean, THEN conjunct1])
       (simp_all add: small_params_def init_state_def state_ok_def init_separator_simps)
  then show ?thesis by (simp add: acc_def init_separator_simps)
qed

text \<open>
  Claim C2, as stated, fails when reads bring more than one separator each. With
  four-byte reads and the separator \<^verbatim>\<open>|\<close>, the reads \<^verbatim>\<open>a|b|\<close>, \<^verbatim>\<open>c|d|\<close>, \<^verbatim>\<open>e|f|\<close> leave
  \<^verbatim>\<open>d|e|f|\<close> in the accumulator, one frame being split off at each read. After the read
  \<^verbatim>\<open>g|h|\<close> the search looks at the last eight of ten bytes and hits at offset 3, while
  the first separator is at offset 1: the frame made ready is \<^verbatim>\<open>d|e\<close>.
\<close>
theorem window_search_loses_separator:
  "frames (trace (run_state (main_loop small_params (init_separator (Some ''|''))
      (map reading [''a|b|'', ''c|d|'', ''e|f|'', ''g|h|'']) (init_state small_params))))
     = [''a'', ''b'', ''c'', ''d|e''] \<and>
   acc (run_state (main_loop small_params (init_separator (Some ''|''))
      (map reading [''a|b|'', ''c|d|'', ''e|f|'']) (init_state small_params))) = ''d|e|f|'' \<and>
   sep_search small_params (init_separator (Some ''|''))
      (accumulate ''g|h|'' (logged Read (run_state (main_loop small_params (init_separator (Some ''|''))
      (map reading [''a|b|'', ''c|d|'', ''e|f|'']) (init_state small_params))))) = Some 3 \<and>
   memmem (''d|e|f|'' @ ''g|h|'') ''|'' = Some 1"
  by (simp add: run_defs)

lemma sep_search_after_read:
  assumes ok: "state_ok P s"
    and fit: "\<not> int (length chunk) > int (JPEG_BUF_LEN P) - 1 - int (jpeg_size s)"
  shows "sep_search P cfg (accumulate chunk (logged Read s)) =
     map_option (\<lambda>j. length (acc s @ chunk) - 2 * INPUT_BUF_LEN P + j)
       (memmem (drop (length (acc s @ chunk) - 2 * INPUT_BUF_LEN P) (acc s @ chunk))
          (input_separator cfg))"
proof -
  let ?s1 = "logged Read s"
  let ?s2 = "accumulate chunk ?s1"
  have buf: "length (jpeg_buf s) = JPEG_BUF_LEN P" using ok by (simp add: state_ok_def)
  have room: "jpeg_size ?s1 + length chunk \<le> length (jpeg_buf ?s1)"
    using fit buf by (simp add: logged_simps)
  have acc2: "acc ?s2 = acc s @ chunk"
    using acc_accumulate [OF room] by (simp add: acc_def logged_simps)
  have le2: "jpeg_size ?s2 \<le> length (jpeg_buf ?s2)"
    using length_accumulate [OF room] room by (simp add: accumulate_def)
  show ?thesis using sep_search_acc [OF le2, of P cfg] acc2 by simp
qed

lemma memmem_replicate: "0 < n \<Longrightarrow> memmem (replicate n x) [x] = Some 0"
  by (cases n) simp_all

text \<open>A read of nothing but one-byte separators into an accumulator of nothing but such
  separators: the search hits at the start of its window.\<close>
lemma read_of_separators:
  assumes ok: "state_ok P s" and cur: "acc s = replicate m x"
    and n: "0 < INPUT_BUF_LEN P" and fits: "m + INPUT_BUF_LEN P < JPEG_BUF_LEN P"
  shows "\<exists>s'. main_iteration P (init_separator (Some [x]))
            (reading (replicate (INPUT_BUF_LEN P) x)) s = Continue s' \<and>
     state_ok P s' \<and> running s' = running s \<and>
     acc s' = replicate (m + INPUT_BUF_LEN P - Suc (m - INPUT_BUF_LEN P)) x \<and>
     frames (trace s') = frames (trace s) @ [replicate (m - INPUT_BUF_LEN P) x]"
proof -
  let ?N = "INPUT_BUF_LEN P"
  let ?cfg = "init_separator (Some [x])"
  let ?c = "replicate ?N x"
  let ?k = "m - ?N"
  have sz: "jpeg_size s = m" using state_ok_acc_length [OF ok] cur by simp
  have fit: "\<not> int (length ?c) > int (JPEG_BUF_LEN P) - 1 - int (jpeg_size s)"
    using fits sz by simp
  have all: "acc s @ ?c = replicate (m + ?N) x" using cur by (simp add: replicate_add)
  have d: "m + ?N - 2 * ?N = ?k" by simp
  have "0 < m + ?N - ?k" using n by simp
  then have "memmem (drop ?k (replicate (m + ?N) x)) [x] = Some 0"
    by (simp add: memmem_replicate)
  then have hit: "sep_search P ?cfg (accumulate ?c (logged Read s)) = Some ?k"
    using sep_search_after_read [OF ok fit, of ?cfg] all d by (simp add: init_separator_simps)
  have buf: "length (jpeg_buf s) = JPEG_BUF_LEN P" using ok by (simp add: state_ok_def)
  have ne: "?c \<noteq> []" using n by simp
  from iteration_hit [OF buf _ ne _ fit hit, of "reading ?c"] obtain s' where
    it: "main_iteration P ?cfg (reading ?c) s = Continue s'"
    and fr: "frames (trace s') = frames (trace s) @ [take (frame_len ?cfg ?k) (acc s @ ?c)]"
    and ac: "acc s' = drop (rem_start ?cfg ?k) (acc s @ ?c)"
    and rest: "length (jpeg_buf s') = JPEG_BUF_LEN P" "jpeg_size s' = length (acc s')"
      "running s' = running s" "held_jpeg s'" "\<not> held_clients s \<longrightarrow> \<not> held_clients s'"
      "num_clients s = int (length (clients s)) \<longrightarrow> num_clients s' = int (length (clients s'))"
    by (auto simp: reading_simps)
  have fl: "frame_len ?cfg ?k = ?k" "rem_start ?cfg ?k = Suc ?k"
    by (simp_all add: frame_len_def rem_start_def init_separator_simps)
  have ac': "acc s' = replicate (m + ?N - Suc ?k) x"
    using ac unfolding all fl by simp
  have "min ?k (m + ?N) = ?k" by simp
  then have fr': "frames (trace s') = frames (trace s) @ [replicate ?k x]"
    using fr unfolding all fl by simp
  have "state_ok P s'"
    using ok rest ac' fits by (simp add: state_ok_def)
  then show ?thesis using it ac' fr' rest by simp
qed

text \<open>Whatever the size of a read, three reads of separators alone leave separators in
  a frame: the window of the third search starts after them.\<close>
lemma window_search_skips_for_every_size:
  assumes n: "3 \<le> INPUT_BUF_LEN P" and b: "3 * INPUT_BUF_LEN P \<le> JPEG_BUF_LEN P"
  shows "frames (trace (run_state (main_loop P (init_separator (Some [x]))
            (map reading (replicate 3 (replicate (INPUT_BUF_LEN P) x))) (init_state P))))
     = [[], [], replicate (INPUT_BUF_LEN P - 2) x]"
proof -
  let ?N = "INPUT_BUF_LEN P"
  let ?cfg = "init_separator (Some [x])"
  let ?c = "replicate ?N x"
  let ?s0 = "init_state P"
  have n0: "0 < ?N" using n by simp
  have ok0: "state_ok P ?s0" using n b by (simp add: init_state_ok)
  have a0: "acc ?s0 = replicate 0 x" by (simp add: acc_def init_state_def)
  have r0: "running ?s0" "frames (trace ?s0) = []" by (simp_all add: init_state_def)
  have f0: "0 + ?N < JPEG_BUF_LEN P" and f1: "?N - 1 + ?N < JPEG_BUF_LEN P"
    and f2: "2 * ?N - 2 + ?N < JPEG_BUF_LEN P"
    using n b by arith+
  have e1: "0 + ?N - Suc (0 - ?N) = ?N - 1" "0 - ?N = 0" by simp_all
  have e2: "?N - 1 + ?N - Suc (?N - 1 - ?N) = 2 * ?N - 2" "?N - 1 - ?N = 0"
    using n by arith+
  have e3: "2 * ?N - 2 - ?N = ?N - 2" using n by arith
  from read_of_separators [OF ok0 a0 n0 f0] obtain s1 where
    i1: "main_iteration P ?cfg (reading ?c) ?s0 = Continue s1"
    and s1: "state_ok P s1" "running s1" "acc s1 = replicate (?N - 1) x"
      "frames (trace s1) = [[]]"
    unfolding e1 using r0 by auto
  from read_of_separators [OF s1(1) s1(3) n0 f1] obtain s2 where
    i2: "main_iteration P ?cfg (reading ?c) s1 = Continue s2"
    and s2: "state_ok P s2" "running s2" "acc s2 = replicate (2 * ?N - 2) x"
      "frames (trace s2) = [[], []]"
    unfolding e2 using s1 by auto
  from read_of_separators [OF s2(1) s2(3) n0 f2] obtain s3 where
    i3: "main_iteration P ?cfg (reading ?c) s2 = Continue s3"
    and s3: "frames (trace s3) = [[], [], replicate (?N - 2) x]"
    unfolding e3 using s2 by auto
  have "main_loop P ?cfg (map reading (replicate 3 ?c)) ?s0 = Pending s3"
    using i1 i2 i3 r0 s1 s2 by (simp add: numeral_3_eq_3 reading_simps)
  then show ?thesis using s3 by simp
qed

subsection \<open>A stream of frames, no read across two frames\<close>

lemma iteration_miss:
  assumes ok: "state_ok P s"
    and rd: "read_res env = Got chunk" and ne: "chunk \<noteq> []" and nf: "fails env = []"
    and fit: "\<not> int (length chunk) > int (JPEG_BUF_LEN P) - 1 - int (jpeg_size s)"
    and miss: "sep_search P cfg (accumulate chunk (logged Read s)) = None"
  shows "\<exists>s'. main_iteration P cfg env s = Continue s' \<and> state_ok P s' \<and>
     acc s' = acc s @ chunk \<and> frames (trace s') = frames (trace s) \<and> running s' = running s"
proof -
  let ?s1 = "logged Read s"
  let ?s2 = "accumulate chunk ?s1"
  have buf: "length (jpeg_buf s) = JPEG_BUF_LEN P" using ok by (simp add: state_ok_def)
  have s1: "jpeg_buf ?s1 = jpeg_buf s" "jpeg_size ?s1 = jpeg_size s"
    by (simp_all add: logged_def)
  have room: "jpeg_size ?s1 + length chunk \<le> length (jpeg_buf ?s1)"
    using fit buf s1 by simp
  have acc2: "acc ?s2 = acc s @ chunk"
    using acc_accumulate [OF room] acc_cong [OF s1] by simp
  have len2: "length (jpeg_buf ?s2) = JPEG_BUF_LEN P"
    using length_accumulate [OF room] s1 buf by simp
  have sz2: "jpeg_size ?s2 = jpeg_size s + length chunk"
    by (simp add: accumulate_def logged_def)
  have other2: "running ?s2 = running s" "held_clients ?s2 = held_clients s"
    "held_jpeg ?s2 = held_jpeg s"
    "clients ?s2 = clients s" "num_clients ?s2 = num_clients s"
    "frames (trace ?s2) = frames (trace s)"
    by (simp_all add: accumulate_def logged_def frames_append)
  from accept_client_ok [OF nf, of ?s2] obtain s' where
    a: "accept_client env ?s2 = Continue s'"
    and b': "jpeg_buf s' = jpeg_buf ?s2" "jpeg_size s' = jpeg_size ?s2"
    and o': "running s' = running ?s2" "held_jpeg s' = held_jpeg ?s2"
      "frames (trace s') = frames (trace ?s2)" "\<not> held_clients ?s2 \<longrightarrow> \<not> held_clients s'"
      "num_clients ?s2 = int (length (clients ?s2)) \<longrightarrow> num_clients s' = int (length (clients s'))"
    by blast
  have it: "main_iteration P cfg env s = Continue s'"
    using rd ne fit miss a s1 by (simp add: main_iteration_def Let_def)
  have "state_ok P s'"
    using ok b' o' other2 len2 sz2 fit by (simp add: state_ok_def)
  then show ?thesis
    using it acc_cong [OF b'] acc2 o' other2 by simp
qed





lemma frames_fold_join:
  "frames (trace (fold (\<lambda>p. logged (ThreadJoin p)) cs s)) = frames (trace s)"
  by (induction cs arbitrary: s) (simp_all add: logged_def frames_append)
















subsection \<open>Every iteration, whatever the system answers\<close>

lemma publish_frames:
  "frames (trace (case publish cfg env k s of Inl (r, s') \<Rightarrow> s' | Inr s' \<Rightarrow> s'))
     = frames (trace s) @ [take (frame_len cfg k) (jpeg_buf s)]"
  by (simp add: publish_def Let_def logged_simps mark_ready_def frames_append acc_def)

lemma publish_Inr:
  assumes "publish cfg env k s = Inr s'"
  shows "jpeg_size s' = nat (rem_len cfg (jpeg_size s) k) \<and>
    jpeg_buf s' = memcpy (jpeg_buf s) 0
       (take (nat (rem_len cfg (jpeg_size s) k)) (drop (rem_start cfg k) (jpeg_buf s))) \<and>
    running s' = running s \<and> held_jpeg s' \<and> held_clients s' = held_clients s \<and>
    clients s' = clients s \<and> num_clients s' = num_clients s"
  using assms
  by (auto simp add: publish_def Let_def logged_simps mark_ready_def split: if_splits)

lemma accept_frames:
  "frames (trace (outcome_state (accept_client env s))) = frames (trace s)"
  by (cases "accept_res env") (simp_all add: accept_client_def Let_def logged_simps frames_append)

lemma accept_Continue:
  assumes "accept_client env s = Continue s'"
  shows "jpeg_buf s' = jpeg_buf s \<and> jpeg_size s' = jpeg_size s \<and> running s' = running s \<and>
    held_jpeg s' = held_jpeg s \<and> (\<not> held_clients s \<longrightarrow> \<not> held_clients s') \<and>
    (num_clients s = int (length (clients s)) \<longrightarrow> num_clients s' = int (length (clients s')))"
  using assms
  by (cases "accept_res env")
     (auto simp add: accept_client_def Let_def logged_simps split: if_splits)

lemma accumulate_simps:
  "jpeg_size (accumulate chunk s) = jpeg_size s + length chunk"
  "running (accumulate chunk s) = running s" "clients (accumulate chunk s) = clients s"
  "num_clients (accumulate chunk s) = num_clients s" "store (accumulate chunk s) = store s"
  "held_jpeg (accumulate chunk s) = held_jpeg s" "held_clients (accumulate chunk s) = held_clients s"
  "trace (accumulate chunk s) = trace s"
  by (simp_all add: accumulate_def)

text \<open>Every iteration that continues keeps the state of the loop well-formed.\<close>
lemma iteration_state_ok:
  assumes ok: "state_ok P s" and it: "main_iteration P cfg env s = Continue s'"
  shows "state_ok P s'"
proof (cases "read_res env")
  case Interrupted
  then show ?thesis using it by (simp add: main_iteration_def Let_def)
next
  case Failed
  then show ?thesis using it by (simp add: main_iteration_def Let_def)
next
  case (Got chunk)
  show ?thesis
  proof (cases "chunk = [] \<or> int (length chunk) > int (JPEG_BUF_LEN P) - 1 - int (jpeg_size s)")
    case True
    then show ?thesis using it Got ok
      by (auto simp add: main_iteration_def Let_def logged_simps state_ok_def split: if_splits)
  next
    case False
    let ?s2 = "accumulate chunk (logged Read s)"
    have buf: "length (jpeg_buf s) = JPEG_BUF_LEN P" using ok by (simp add: state_ok_def)
    have room: "jpeg_size (logged Read s) + length chunk \<le> length (jpeg_buf (logged Read s))"
      using False buf by (simp add: logged_simps)
    have len2: "length (jpeg_buf ?s2) = JPEG_BUF_LEN P"
      using length_accumulate [OF room] buf by (simp add: logged_simps)
    have sz2: "jpeg_size ?s2 < JPEG_BUF_LEN P"
      using False by (simp add: accumulate_simps logged_simps)
    have ok2: "state_ok P ?s2"
      using ok len2 sz2 by (simp add: state_ok_def accumulate_simps logged_simps)
    show ?thesis
    proof (cases "sep_search P cfg ?s2")
      case None
      then have "accept_client env ?s2 = Continue s'"
        using it Got False by (simp add: main_iteration_def Let_def logged_simps)
      from accept_Continue [OF this] show ?thesis
        using ok2 by (simp add: state_ok_def)
    next
      case (Some k)
      then obtain s3 where p: "publish cfg env k ?s2 = Inr s3"
        and a: "accept_client env s3 = Continue s'"
        using it Got False
        by (auto simp add: main_iteration_def Let_def logged_simps split: sum.splits)
      have le2: "jpeg_size ?s2 \<le> length (jpeg_buf ?s2)" using len2 sz2 by simp
      from publish_Inr [OF p] have s3: "jpeg_size s3 = nat (rem_len cfg (jpeg_size ?s2) k)"
        "jpeg_buf s3 = memcpy (jpeg_buf ?s2) 0
           (take (nat (rem_len cfg (jpeg_size ?s2) k)) (drop (rem_start cfg k) (jpeg_buf ?s2)))"
        "held_jpeg s3" "held_clients s3 = held_clients ?s2"
        "clients s3 = clients ?s2" "num_clients s3 = num_clients ?s2" by simp_all
      from acc_publish [OF le2 s3(1) s3(2)]
      have len3: "length (jpeg_buf s3) = JPEG_BUF_LEN P" using len2 by simp
      have sz3: "jpeg_size s3 < JPEG_BUF_LEN P"
        using s3(1) sz2 by (simp add: rem_len_start)
      have "state_ok P s3"
        using ok2 len3 sz3 s3 by (simp add: state_ok_def)
      with accept_Continue [OF a] show ?thesis by (simp add: state_ok_def)
    qed
  qed
qed

lemma bye_handler_simps:
  "jpeg_buf (bye_handler s) = jpeg_buf s" "jpeg_size (bye_handler s) = jpeg_size s"
  "clients (bye_handler s) = clients s" "num_clients (bye_handler s) = num_clients s"
  "store (bye_handler s) = store s"
  "held_jpeg (bye_handler s) = held_jpeg s" "held_clients (bye_handler s) = held_clients s"
  "trace (bye_handler s) = trace s" "\<not> running (bye_handler s)"
  by (simp_all add: bye_handler_def)

lemma memmem_empty_needle: "memmem hs [] = Some 0"
  by (cases hs) simp_all

lemma hit_frame_short:
  assumes le: "jpeg_size s \<le> length (jpeg_buf s)" and sz: "jpeg_size s < JPEG_BUF_LEN P"
    and pos: "0 < jpeg_size s" and n: "0 < INPUT_BUF_LEN P"
    and hit: "sep_search P (init_separator arg) s = Some k"
  shows "short_frame P arg (take (frame_len (init_separator arg) k) (jpeg_buf s))"
proof -
  let ?cfg = "init_separator arg"
  from sep_search_Some [OF le hit]
  have kb: "k + length (input_separator ?cfg) \<le> jpeg_size s" by simp
  have fl: "frame_len ?cfg k + 2 \<le> JPEG_BUF_LEN P \<and> (arg = None \<longrightarrow> frame_len ?cfg k + 3 \<le> JPEG_BUF_LEN P)"
  proof (cases arg)
    case None
    then show ?thesis using kb sz by (simp add: frame_len_def init_separator_simps)
  next
    case (Some sep)
    show ?thesis
    proof (cases "sep = []")
      case False
      then have "Suc 0 \<le> length sep" by (cases sep) simp_all
      moreover have "k + length sep \<le> jpeg_size s"
        using kb Some by (simp add: init_separator_simps)
      ultimately have "k + 2 \<le> JPEG_BUF_LEN P" using sz by linarith
      then show ?thesis using Some by (simp add: frame_len_def init_separator_simps)
    next
      case True
      have la: "length (acc s) = jpeg_size s" using le by (simp add: acc_def)
      have "sep_search P ?cfg s = Some (jpeg_size s - 2 * INPUT_BUF_LEN P)"
        using sep_search_acc [OF le, of P ?cfg] True Some
        by (simp add: init_separator_simps memmem_empty_needle la)
      then have "k = jpeg_size s - 2 * INPUT_BUF_LEN P" using hit by simp
      then have "k < jpeg_size s" using pos n by simp
      then show ?thesis using sz Some by (simp add: frame_len_def init_separator_simps)
    qed
  qed
  have "length (take (frame_len ?cfg k) (jpeg_buf s)) \<le> frame_len ?cfg k" by simp
  then show ?thesis using fl unfolding short_frame_def by linarith
qed

lemma iteration_frames_short:
  assumes ok: "state_ok P s" and n: "0 < INPUT_BUF_LEN P"
  shows "\<exists>new. frames (trace (outcome_state (main_iteration P (init_separator arg) env s)))
            = frames (trace s) @ new \<and> list_all (short_frame P arg) new"
proof (cases "read_res env")
  case Interrupted
  then show ?thesis
    by (simp add: main_iteration_def Let_def logged_simps bye_handler_simps frames_append)
next
  case Failed
  then show ?thesis by (simp add: main_iteration_def Let_def logged_simps frames_append)
next
  case (Got chunk)
  let ?cfg = "init_separator arg"
  show ?thesis
  proof (cases "chunk = [] \<or> int (length chunk) > int (JPEG_BUF_LEN P) - 1 - int (jpeg_size s)")
    case True
    then show ?thesis using Got
      by (auto simp add: main_iteration_def Let_def logged_simps frames_append)
  next
    case False
    let ?s2 = "accumulate chunk (logged Read s)"
    have buf: "length (jpeg_buf s) = JPEG_BUF_LEN P" using ok by (simp add: state_ok_def)
    have room: "jpeg_size (logged Read s) + length chunk \<le> length (jpeg_buf (logged Read s))"
      using False buf by (simp add: logged_simps)
    have len2: "length (jpeg_buf ?s2) = JPEG_BUF_LEN P"
      using length_accumulate [OF room] buf by (simp add: logged_simps)
    have sz2: "jpeg_size ?s2 < JPEG_BUF_LEN P" "0 < jpeg_size ?s2"
      using False by (simp_all add: accumulate_simps logged_simps)
    have le2: "jpeg_size ?s2 \<le> length (jpeg_buf ?s2)" using len2 sz2 by simp
    have t2: "frames (trace ?s2) = frames (trace s)"
      by (simp add: accumulate_simps logged_simps frames_append)
    show ?thesis
    proof (cases "sep_search P ?cfg ?s2")
      case None
      then have "main_iteration P ?cfg env s = accept_client env ?s2"
        using Got False by (simp add: main_iteration_def Let_def logged_simps)
      then show ?thesis using accept_frames [of env ?s2] t2 by simp
    next
      case (Some k)
      let ?f = "take (frame_len ?cfg k) (jpeg_buf ?s2)"
      have it: "main_iteration P ?cfg env s =
          (case publish ?cfg env k ?s2 of Inl (r, s3) \<Rightarrow> Return r s3
           | Inr s3 \<Rightarrow> accept_client env s3)"
        using Got False Some by (simp add: main_iteration_def Let_def logged_simps)
      have "frames (trace (outcome_state (main_iteration P ?cfg env s))) = frames (trace ?s2) @ [?f]"
        using publish_frames [of ?cfg env k ?s2] unfolding it
        by (cases "publish ?cfg env k ?s2") (auto simp: accept_frames)
      moreover have "short_frame P arg ?f"
        by (rule hit_frame_short [OF le2 sz2(1) sz2(2) n Some])
      ultimately show ?thesis using t2 by simp
    qed
  qed
qed

lemma shutdown_frames_any: "frames (trace (snd (shutdown fl s))) = frames (trace s)"
  by (simp add: shutdown_def Let_def frames_fold_join logged_simps frames_append)

lemma bye_handler_state_ok: "state_ok P (bye_handler s) = state_ok P s"
  by (simp add: state_ok_def bye_handler_simps)

lemma run_frames_short:
  assumes "state_ok P s" and "0 < INPUT_BUF_LEN P"
    and "list_all (short_frame P arg) (frames (trace s))"
  shows "list_all (short_frame P arg)
           (frames (trace (run_state (main_loop P (init_separator arg) envs s))))"
  using assms
proof (induction envs arbitrary: s)
  case Nil
  then show ?case by simp
next
  case (Cons env envs)
  let ?cfg = "init_separator arg"
  let ?s0 = "if signalled env then bye_handler s else s"
  have ok0: "state_ok P ?s0" using Cons.prems(1) by (simp add: bye_handler_state_ok)
  have f0: "list_all (short_frame P arg) (frames (trace ?s0))"
    using Cons.prems(3) by (simp add: bye_handler_simps)
  show ?case
  proof (cases "running ?s0")
    case False
    then have "run_state (main_loop P ?cfg (env # envs) s) = snd (shutdown (fails env) ?s0)"
      by (simp add: Let_def split: prod.splits)
    then show ?thesis using f0 by (simp only: shutdown_frames_any)
  next
    case True
    from iteration_frames_short [OF ok0 Cons.prems(2), of arg env] obtain new where
      new: "frames (trace (outcome_state (main_iteration P ?cfg env ?s0))) = frames (trace ?s0) @ new"
        "list_all (short_frame P arg) new" by blast
    show ?thesis
    proof (cases "main_iteration P ?cfg env ?s0")
      case (Continue s')
      have "state_ok P s'" by (rule iteration_state_ok [OF ok0 Continue])
      moreover have "list_all (short_frame P arg) (frames (trace s'))"
        using new f0 Continue by simp
      ultimately have "list_all (short_frame P arg)
           (frames (trace (run_state (main_loop P ?cfg envs s'))))"
        using Cons.IH Cons.prems(2) by blast
      then show ?thesis using True Continue by (simp add: Let_def)
    next
      case (Break s')
      have "run_state (main_loop P ?cfg (env # envs) s) = snd (shutdown (fails env) s')"
        using True Break by (simp add: Let_def split: prod.splits)
      moreover have "list_all (short_frame P arg) (frames (trace s'))"
        using new f0 Break by simp
      ultimately show ?thesis by (simp only: shutdown_frames_any)
    next
      case (Return r s')
      have "run_state (main_loop P ?cfg (env # envs) s) = s'"
        using True Return by (simp add: Let_def)
      moreover have "list_all (short_frame P arg) (frames (trace s'))"
        using new f0 Return by simp
      ultimately show ?thesis by simp
    qed
  qed
qed

subsection \<open>The limit of the accumulator\<close>

text \<open>
  Claim C5, as the code has it. In every run from the initial state, every frame made
  ready is at most \<open>JPEG_BUF_LEN - 2\<close> bytes long, and at most \<open>JPEG_BUF_LEN - 3\<close> without
  \<^verbatim>\<open>-s\<close>: the separator has to be in the accumulator together with the frame. A read that
  brings the accumulator to exactly \<open>JPEG_BUF_LEN - 1\<close> bytes is kept; a read that would
  bring it to \<open>JPEG_BUF_LEN\<close> bytes or more empties the accumulator and makes no frame
  ready.
\<close>
theorem accumulator_limit_and_frame_length:
  assumes n: "0 < INPUT_BUF_LEN P" and b: "0 < JPEG_BUF_LEN P"
  shows "list_all (short_frame P arg)
           (frames (trace (run_state (main_loop P (init_separator arg) envs (init_state P))))) \<and>
    (\<forall>s env chunk. state_ok P s \<and> read_res env = Got chunk \<and> chunk \<noteq> [] \<and> fails env = [] \<and>
        jpeg_size s + length chunk = JPEG_BUF_LEN P - 1 \<and>
        sep_search P (init_separator arg) (accumulate chunk (logged Read s)) = None \<longrightarrow>
        (\<exists>s'. main_iteration P (init_separator arg) env s = Continue s' \<and>
              acc s' = acc s @ chunk \<and> jpeg_size s' = JPEG_BUF_LEN P - 1)) \<and>
    (\<forall>s env chunk. state_ok P s \<and> read_res env = Got chunk \<and>
        JPEG_BUF_LEN P \<le> jpeg_size s + length chunk \<longrightarrow>
        (\<exists>s'. main_iteration P (init_separator arg) env s = Continue s' \<and>
              jpeg_size s' = 0 \<and> frames (trace s') = frames (trace s)))"
proof (intro conjI allI impI)
  show "list_all (short_frame P arg)
           (frames (trace (run_state (main_loop P (init_separator arg) envs (init_state P)))))"
    by (rule run_frames_short [OF init_state_ok [OF b] n]) (simp add: init_state_def)
next
  fix s :: main_state and env :: iter_env and chunk :: "byte list"
  assume a: "state_ok P s \<and> read_res env = Got chunk \<and> chunk \<noteq> [] \<and> fails env = [] \<and>
        jpeg_size s + length chunk = JPEG_BUF_LEN P - 1 \<and>
        sep_search P (init_separator arg) (accumulate chunk (logged Read s)) = None"
  then have fit: "\<not> int (length chunk) > int (JPEG_BUF_LEN P) - 1 - int (jpeg_size s)"
    using b by linarith
  from a have ok: "state_ok P s" and rd: "read_res env = Got chunk" and ne: "chunk \<noteq> []"
    and nf: "fails env = []"
    and miss: "sep_search P (init_separator arg) (accumulate chunk (logged Read s)) = None"
    by simp_all
  from iteration_miss [OF ok rd ne nf fit miss] obtain s' where
    s': "main_iteration P (init_separator arg) env s = Continue s'" "state_ok P s'"
      "acc s' = acc s @ chunk" by blast
  have "jpeg_size s' = length (acc s) + length chunk"
    using state_ok_acc_length [OF s'(2)] s'(3) by simp
  then have "jpeg_size s' = JPEG_BUF_LEN P - 1"
    using a state_ok_acc_length [OF ok] by simp
  then show "\<exists>s'. main_iteration P (init_separator arg) env s = Continue s' \<and>
              acc s' = acc s @ chunk \<and> jpeg_size s' = JPEG_BUF_LEN P - 1"
    using s' by blast
next
  fix s :: main_state and env :: iter_env and chunk :: "byte list"
  assume a: "state_ok P s \<and> read_res env = Got chunk \<and>
        JPEG_BUF_LEN P \<le> jpeg_size s + length chunk"
  then have "jpeg_size s < JPEG_BUF_LEN P" by (simp add: state_ok_def)
  then have "chunk \<noteq> []" "int (length chunk) > int (JPEG_BUF_LEN P) - 1 - int (jpeg_size s)"
    using a by auto
  then show "\<exists>s'. main_iteration P (init_separator arg) env s = Continue s' \<and>
              jpeg_size s' = 0 \<and> frames (trace s') = frames (trace s)"
    using a by (simp add: main_iteration_def Let_def logged_simps frames_append)
qed

theorem accumulator_limit_and_frame_length_witness:
  "list_all (short_frame \<lparr>INPUT_BUF_LEN = 4, JPEG_BUF_LEN = 8\<rparr> None)
     (frames (trace (run_state (main_loop \<lparr>INPUT_BUF_LEN = 4, JPEG_BUF_LEN = 8\<rparr> (init_separator None)
        (map reading [[CHR ''a'', CHR 0xFF, CHR 0xD9, CHR 0xFF], [CHR 0xD8, CHR ''b'', CHR ''c'']])
        (init_state \<lparr>INPUT_BUF_LEN = 4, JPEG_BUF_LEN = 8\<rparr>))))) \<and>
   frames (trace (run_state (main_loop \<lparr>INPUT_BUF_LEN = 4, JPEG_BUF_LEN = 8\<rparr> (init_separator None)
        (map reading [[CHR ''a'', CHR 0xFF, CHR 0xD9, CHR 0xFF], [CHR 0xD8, CHR ''b'', CHR ''c'']])
        (init_state \<lparr>INPUT_BUF_LEN = 4, JPEG_BUF_LEN = 8\<rparr>)))) = [[CHR ''a'', CHR 0xFF, CHR 0xD9]] \<and>
   (\<exists>s'. main_iteration \<lparr>INPUT_BUF_LEN = 4, JPEG_BUF_LEN = 8\<rparr> (init_separator None)
            (reading ''abcdefg'') (init_state \<lparr>INPUT_BUF_LEN = 4, JPEG_BUF_LEN = 8\<rparr>) = Continue s' \<and>
          acc s' = ''abcdefg'' \<and> jpeg_size s' = 7) \<and>
   (\<exists>s'. main_iteration \<lparr>INPUT_BUF_LEN = 4, JPEG_BUF_LEN = 8\<rparr> (init_separator None)
            (reading ''abcdefgh'') (init_state \<lparr>INPUT_BUF_LEN = 4, JPEG_BUF_LEN = 8\<rparr>) = Continue s' \<and>
          jpeg_size s' = 0 \<and> frames (trace s') = [])"
proof -
  let ?P = "\<lparr>INPUT_BUF_LEN = 4, JPEG_BUF_LEN = 8\<rparr>"
  note t = accumulator_limit_and_frame_length [of ?P None
      "map reading [[CHR ''a'', CHR 0xFF, CHR 0xD9, CHR 0xFF], [CHR 0xD8, CHR ''b'', CHR ''c'']]"]
  have h: "0 < INPUT_BUF_LEN ?P" "0 < JPEG_BUF_LEN ?P" by simp_all
  note c = t [OF h]
  have 1: "list_all (short_frame ?P None)
     (frames (trace (run_state (main_loop ?P (init_separator None)
        (map reading [[CHR ''a'', CHR 0xFF, CHR 0xD9, CHR 0xFF], [CHR 0xD8, CHR ''b'', CHR ''c'']])
        (init_state ?P)))))"
    using c by (rule conjunct1)
  have 2: "frames (trace (run_state (main_loop ?P (init_separator None)
        (map reading [[CHR ''a'', CHR 0xFF, CHR 0xD9, CHR 0xFF], [CHR 0xD8, CHR ''b'', CHR ''c'']])
        (init_state ?P)))) = [[CHR ''a'', CHR 0xFF, CHR 0xD9]]"
    by (simp add: run_defs)
  have 3: "\<exists>s'. main_iteration ?P (init_separator None) (reading ''abcdefg'') (init_state ?P) = Continue s' \<and>
          acc s' = acc (init_state ?P) @ ''abcdefg'' \<and> jpeg_size s' = JPEG_BUF_LEN ?P - 1"
    using c [THEN conjunct2, THEN conjunct1, rule_format, of "init_state ?P" "reading ''abcdefg''" "''abcdefg''"]
    by (simp add: state_ok_def init_state_def reading_simps sep_search_def accumulate_def logged_def
        memcpy_def init_separator_simps)
  have 4: "\<exists>s'. main_iteration ?P (init_separator None) (reading ''abcdefgh'') (init_state ?P) = Continue s' \<and>
          jpeg_size s' = 0 \<and> frames (trace s') = frames (trace (init_state ?P))"
    using c [THEN conjunct2, THEN conjunct2, rule_format, of "init_state ?P" "reading ''abcdefgh''" "''abcdefgh''"]
    by (simp add: state_ok_def init_state_def reading_simps)
  show ?thesis using 1 2 3 4 by (simp add: acc_def init_state_def)
qed

text \<open>
  Claim C5, as stated, fails: with \<open>JPEG_BUF_LEN = 8\<close>, a frame of seven bytes is
  accumulated whole, the read that brings the start of the next frame empties the
  accumulator, and no frame has been made ready when the stream ends.
\<close>
theorem full_buffer_frame_is_discarded:
  "acc (run_state (main_loop \<lparr>INPUT_BUF_LEN = 4, JPEG_BUF_LEN = 8\<rparr> (init_separator None)
      (map reading [[CHR 0xFF, CHR 0xD8, CHR ''a'', CHR ''b''], [CHR ''c'', CHR 0xFF, CHR 0xD9]])
      (init_state \<lparr>INPUT_BUF_LEN = 4, JPEG_BUF_LEN = 8\<rparr>)))
     = [CHR 0xFF, CHR 0xD8, CHR ''a'', CHR ''b'', CHR ''c'', CHR 0xFF, CHR 0xD9] \<and>
   acc (run_state (main_loop \<lparr>INPUT_BUF_LEN = 4, JPEG_BUF_LEN = 8\<rparr> (init_separator None)
      (map reading [[CHR 0xFF, CHR 0xD8, CHR ''a'', CHR ''b''], [CHR ''c'', CHR 0xFF, CHR 0xD9],
                    [CHR 0xFF, CHR 0xD8]])
      (init_state \<lparr>INPUT_BUF_LEN = 4, JPEG_BUF_LEN = 8\<rparr>))) = [] \<and>
   frames (trace (run_state (main_loop \<lparr>INPUT_BUF_LEN = 4, JPEG_BUF_LEN = 8\<rparr> (init_separator None)
      (map reading [[CHR 0xFF, CHR 0xD8, CHR ''a'', CHR ''b''], [CHR ''c'', CHR 0xFF, CHR 0xD9],
                    [CHR 0xFF, CHR 0xD8], []])
      (init_state \<lparr>INPUT_BUF_LEN = 4, JPEG_BUF_LEN = 8\<rparr>)))) = []"
  by (simp add: run_defs shutdown_def)

subsection \<open>The registry of clients\<close>

lemma shift_back_eq:
  assumes "j < length cs"
  shows "shift_back cs (int (length cs)) j = take j cs @ drop (Suc j) cs @ [last cs]"
  using assms
proof (induction "length cs - Suc j" arbitrary: cs j)
  case 0
  then have j: "j = length cs - 1" and ne: "cs \<noteq> []" by auto
  have "\<not> int j < int (length cs) - 1" using j ne by simp
  then have "shift_back cs (int (length cs)) j = cs"
    using shift_back.simps [of cs "int (length cs)" j] by simp
  moreover have "take j cs @ drop (Suc j) cs @ [last cs] = butlast cs @ [last cs]"
    using j ne by (simp add: butlast_conv_take)
  ultimately show ?case using ne by simp
next
  case (Suc m)
  let ?cs' = "cs[j := cs ! (j + 1)]"
  have lt: "Suc j < length cs" using Suc.hyps(2) by simp
  have "int j < int (length cs) - 1" using lt by simp
  then have step: "shift_back cs (int (length cs)) j = shift_back ?cs' (int (length ?cs')) (j + 1)"
    using shift_back.simps [of cs "int (length cs)" j] by simp
  have "m = length ?cs' - Suc (j + 1)" using Suc.hyps(2) by simp
  moreover have "j + 1 < length ?cs'" using lt by simp
  ultimately have "shift_back ?cs' (int (length ?cs')) (j + 1)
      = take (j + 1) ?cs' @ drop (Suc (j + 1)) ?cs' @ [last ?cs']"
    by (rule Suc.hyps(1))
  moreover have "take (j + 1) ?cs' = take j cs @ [cs ! (j + 1)]"
    using Suc.prems by (simp add: take_Suc_conv_app_nth)
  moreover have "drop (Suc (j + 1)) ?cs' = drop (Suc (Suc j)) cs" by simp
  moreover have "last ?cs' = last cs"
  proof -
    have "cs \<noteq> []" "j \<noteq> length cs - 1" using lt by auto
    then show ?thesis by (simp add: last_list_update)
  qed
  moreover have "drop (Suc j) cs = cs ! (j + 1) # drop (Suc (Suc j)) cs"
    using lt by (simp add: Cons_nth_drop_Suc)
  ultimately show ?case using step by simp
qed

lemma take_shift_back:
  assumes "j < length cs"
  shows "take (length cs - 1) (shift_back cs (int (length cs)) j) = take j cs @ drop (Suc j) cs"
proof -
  have "length (take j cs @ drop (Suc j) cs) = length cs - 1" using assms by simp
  then show ?thesis using shift_back_eq [OF assms]
    by (metis append_assoc append_eq_conv_conj)
qed

lemma find_client_eq:
  assumes "i \<le> length cs" and "c \<notin> set (take i cs)"
  shows "take (length cs - 1) (find_client cs (int (length cs)) c i)
      = (if c \<in> set cs then remove1 c cs else butlast cs)"
  using assms
proof (induction "length cs - i" arbitrary: i)
  case 0
  then have i: "i = length cs" by simp
  then have "find_client cs (int (length cs)) c i = cs"
    using find_client.simps [of cs "int (length cs)" c i] by simp
  then show ?case using 0 i by (simp add: butlast_conv_take)
next
  case (Suc m)
  then have lt: "i < length cs" by simp
  show ?case
  proof (cases "cs ! i = c")
    case True
    have "find_client cs (int (length cs)) c i = shift_back cs (int (length cs)) i"
      using lt True find_client.simps [of cs "int (length cs)" c i] by simp
    then have "take (length cs - 1) (find_client cs (int (length cs)) c i)
        = take i cs @ drop (Suc i) cs"
      using take_shift_back [OF lt] by simp
    moreover have "cs = take i cs @ c # drop (Suc i) cs"
      using id_take_nth_drop [OF lt] True by simp
    then have "remove1 c cs = take i cs @ drop (Suc i) cs" and "c \<in> set cs"
      using Suc.prems(2) by (metis remove1_append remove1.simps(2), metis in_set_conv_decomp)
    ultimately show ?thesis by simp
  next
    case False
    have "find_client cs (int (length cs)) c i = find_client cs (int (length cs)) c (i + 1)"
      using lt False find_client.simps [of cs "int (length cs)" c i] by simp
    moreover have "c \<notin> set (take (i + 1) cs)"
      using Suc.prems(2) False lt by (simp add: take_Suc_conv_app_nth)
    moreover have "m = length cs - (i + 1)" using Suc.hyps(2) by simp
    ultimately show ?thesis using Suc.hyps(1) [of "i + 1"] lt by simp
  qed
qed

text \<open>
  Claim C9. With \<open>num_clients\<close> the number of entries of the registry,
  \<^verbatim>\<open>on_client_exit\<close> decrements \<open>num_clients\<close>; when the client is in the registry, its
  (first) entry is removed and the other entries keep their order; when it is not, the
  last entry is dropped.
\<close>
theorem on_client_exit_removes_entry:
  assumes "num_clients s = int (length (clients s))"
  shows "num_clients (on_client_exit c s) = num_clients s - 1 \<and>
    (c \<in> set (clients s) \<longrightarrow> clients (on_client_exit c s) = remove1 c (clients s)) \<and>
    (c \<notin> set (clients s) \<longrightarrow> clients (on_client_exit c s) = butlast (clients s))"
proof -
  have "nat (num_clients s - 1) = length (clients s) - 1" using assms by simp
  then have "clients (on_client_exit c s)
      = take (length (clients s) - 1) (find_client (clients s) (int (length (clients s))) c 0)"
    using assms by (simp add: on_client_exit_def Let_def)
  also have "\<dots> = (if c \<in> set (clients s) then remove1 c (clients s) else butlast (clients s))"
    by (rule find_client_eq) simp_all
  finally show ?thesis by (simp add: on_client_exit_def Let_def)
qed

theorem on_client_exit_removes_entry_witness:
  "num_clients (on_client_exit 20 ((init_state small_params)\<lparr>clients := [10, 20, 30], num_clients := 3\<rparr>)) = 2 \<and>
   clients (on_client_exit 20 ((init_state small_params)\<lparr>clients := [10, 20, 30], num_clients := 3\<rparr>)) = [10, 30] \<and>
   clients (on_client_exit 40 ((init_state small_params)\<lparr>clients := [10, 20, 30], num_clients := 3\<rparr>)) = [10, 20]"
  using on_client_exit_removes_entry [of "(init_state small_params)\<lparr>clients := [10, 20, 30], num_clients := 3\<rparr>" 20]
    on_client_exit_removes_entry [of "(init_state small_params)\<lparr>clients := [10, 20, 30], num_clients := 3\<rparr>" 40]
  by simp

subsection \<open>The port option\<close>

lemma strtol_zero: "strtol ''0'' = (0, [])"
  by (simp add: strtol_def isspace_def isdigit_def Let_def)

lemma parse_opts_append:
  "parse_opts (xs @ ys) opts =
     (case parse_opts xs opts of Inl r \<Rightarrow> Inl r | Inr opts' \<Rightarrow> parse_opts ys opts')"
proof (induction xs arbitrary: opts)
  case Nil
  show ?case by simp
next
  case (Cons x xs)
  obtain c optarg where x: "x = (c, optarg)" by (cases x)
  show ?case unfolding x using Cons.IH
    by (simp split: prod.splits)
qed

lemma parse_opts_keeps_port:
  assumes "\<forall>x\<in>set xs. fst x \<noteq> CHR ''p''" and "parse_opts xs opts = Inr opts'"
  shows "tcp_port opts' = tcp_port opts"
  using assms
proof (induction xs arbitrary: opts)
  case Nil
  then show ?case by simp
next
  case (Cons x xs)
  obtain c optarg where x: "x = (c, optarg)" by (cases x)
  have c: "c \<noteq> CHR ''p''" using Cons.prems(1) x by simp
  have rest: "\<forall>x\<in>set xs. fst x \<noteq> CHR ''p''" using Cons.prems(1) by simp
  show ?case
    using Cons.prems(2) c Cons.IH [OF rest] unfolding x
    by (auto split: if_splits prod.splits)
qed

lemma parse_opts_without_port:
  assumes "parse_opts xs a = Inr a'"
    and "client_read_timeout a = client_read_timeout b" and "listen_localhost a = listen_localhost b"
    and "separator_arg a = separator_arg b" and "log_level a = log_level b"
  shows "\<exists>b'. parse_opts (filter (\<lambda>x. fst x \<noteq> CHR ''p'') xs) b = Inr b' \<and>
     tcp_port b' = tcp_port b \<and>
     client_read_timeout a' = client_read_timeout b' \<and> listen_localhost a' = listen_localhost b' \<and>
     separator_arg a' = separator_arg b' \<and> log_level a' = log_level b'"
  using assms
proof (induction xs arbitrary: a b)
  case Nil
  then show ?case by simp
next
  case (Cons x xs)
  obtain c optarg where x: "x = (c, optarg)" by (cases x)
  note IH = Cons.IH
  show ?case
  proof (cases "c = CHR ''p''")
    case True
    then obtain v where "parse_opts xs (a\<lparr>tcp_port := v\<rparr>) = Inr a'"
      using Cons.prems(1) x by (auto split: prod.splits if_splits)
    from IH [OF this, of b] Cons.prems(2-5) show ?thesis using True x by simp
  next
    case False
    consider "c = CHR ''d''" | "c = CHR ''l''" | "c = CHR ''q''" | "c = CHR ''s''" | "c = CHR ''t''"
      using Cons.prems(1) x False by (auto split: if_splits)
    then show ?thesis
    proof cases
      case 1
      then have "parse_opts xs (a\<lparr>log_level := 2\<rparr>) = Inr a'" using Cons.prems(1) x by simp
      from IH [OF this, of "b\<lparr>log_level := 2\<rparr>"] Cons.prems(2-5) show ?thesis using 1 x by simp
    next
      case 2
      then have "parse_opts xs (a\<lparr>listen_localhost := True\<rparr>) = Inr a'"
        using Cons.prems(1) x by simp
      from IH [OF this, of "b\<lparr>listen_localhost := True\<rparr>"] Cons.prems(2-5)
      show ?thesis using 2 x by simp
    next
      case 3
      then have "parse_opts xs (a\<lparr>log_level := 0\<rparr>) = Inr a'" using Cons.prems(1) x by simp
      from IH [OF this, of "b\<lparr>log_level := 0\<rparr>"] Cons.prems(2-5) show ?thesis using 3 x by simp
    next
      case 4
      then have "parse_opts xs (a\<lparr>separator_arg := Some optarg\<rparr>) = Inr a'"
        using Cons.prems(1) x by simp
      from IH [OF this, of "b\<lparr>separator_arg := Some optarg\<rparr>"] Cons.prems(2-5)
      show ?thesis using 4 x by simp
    next
      case 5
      then obtain v where v: "strtol optarg = (v, [])"
        and "parse_opts xs (a\<lparr>client_read_timeout := int_of_long v\<rparr>) = Inr a'"
        using Cons.prems(1) x by (auto split: prod.splits if_splits)
      from IH [OF this(2), of "b\<lparr>client_read_timeout := int_of_long v\<rparr>"] Cons.prems(2-5)
      show ?thesis using 5 x v by simp
    qed
  qed
qed

text \<open>
  Claim C10. When the last \<^verbatim>\<open>-p\<close> option of a command line that \<^verbatim>\<open>main\<close> accepts is
  \<^verbatim>\<open>-p 0\<close>, the port is the default port, 8080, and the options are those of the same
  command line without any \<^verbatim>\<open>-p\<close> option.
\<close>
theorem port_zero_means_default_port:
  assumes after: "\<forall>x\<in>set after. fst x \<noteq> CHR ''p''"
    and parsed: "main_args (before @ [(CHR ''p'', ''0'')] @ after) = Inr opts"
  shows "tcp_port opts = DEF_TCP_PORT \<and> listen_port opts = 8080 \<and>
    main_args (filter (\<lambda>x. fst x \<noteq> CHR ''p'') (before @ after)) = Inr opts"
proof -
  let ?all = "before @ [(CHR ''p'', ''0'')] @ after"
  obtain o1 where o1: "parse_opts ?all init_options = Inr o1"
    and opts: "opts = (if tcp_port o1 = 0 then o1\<lparr>tcp_port := DEF_TCP_PORT\<rparr> else o1)"
    using parsed by (auto simp: main_args_def split: sum.splits)
  obtain oa where oa: "parse_opts before init_options = Inr oa"
    and rest: "parse_opts after (oa\<lparr>tcp_port := 0\<rparr>) = Inr o1"
    using o1 by (auto simp: parse_opts_append strtol_zero int_of_long_def split: sum.splits)
  have zero: "tcp_port o1 = 0"
    using parse_opts_keeps_port [OF after rest] by simp
  have port: "tcp_port opts = DEF_TCP_PORT" using opts zero by simp
  from parse_opts_without_port [OF o1, of init_options] obtain b' where
    b': "parse_opts (filter (\<lambda>x. fst x \<noteq> CHR ''p'') ?all) init_options = Inr b'"
    and same: "tcp_port b' = tcp_port init_options"
      "client_read_timeout o1 = client_read_timeout b'" "listen_localhost o1 = listen_localhost b'"
      "separator_arg o1 = separator_arg b'" "log_level o1 = log_level b'"
    by auto
  have "b' = o1" using same zero by (simp add: init_options_def)
  then have "parse_opts (filter (\<lambda>x. fst x \<noteq> CHR ''p'') (before @ after)) init_options = Inr o1"
    using b' by simp
  then have "main_args (filter (\<lambda>x. fst x \<noteq> CHR ''p'') (before @ after)) = Inr opts"
    using opts by (simp add: main_args_def)
  then show ?thesis using port by (simp add: listen_port_def DEF_TCP_PORT_def)
qed

theorem port_zero_means_default_port_witness:
  "main_args [(CHR ''d'', []), (CHR ''p'', ''0''), (CHR ''l'', [])]
     = Inr \<lparr>client_read_timeout = 10, tcp_port = 8080, listen_localhost = True,
            separator_arg = None, log_level = 2\<rparr> \<and>
   main_args [(CHR ''d'', []), (CHR ''l'', [])]
     = Inr \<lparr>client_read_timeout = 10, tcp_port = 8080, listen_localhost = True,
            separator_arg = None, log_level = 2\<rparr> \<and>
   listen_port \<lparr>client_read_timeout = 10, tcp_port = 8080, listen_localhost = True,
            separator_arg = None, log_level = 2\<rparr> = 8080"
proof -
  have m: "main_args ([(CHR ''d'', [])] @ [(CHR ''p'', ''0'')] @ [(CHR ''l'', [])])
     = Inr \<lparr>client_read_timeout = 10, tcp_port = 8080, listen_localhost = True,
            separator_arg = None, log_level = 2\<rparr>"
    by (simp add: main_args_def init_options_def strtol_zero int_of_long_def
        DEF_TCP_PORT_def DEF_CLIENT_READ_TIMEOUT_def)
  have "\<forall>x\<in>set [(CHR ''l'', [])]. fst x \<noteq> CHR ''p''" by simp
  from port_zero_means_default_port [OF this m] m show ?thesis
    by (simp add: DEF_TCP_PORT_def)
qed

subsection \<open>The mutexes of the main thread\<close>

lemmas entry_defs = entry_ok_def producer_entry_ok_def lock_order_ok_def unlocked_call_def
  registering_call_def

lemma trace_fold_join:
  "trace (fold (\<lambda>p. logged (ThreadJoin p)) cs s)
     = trace s @ map (\<lambda>p. (ThreadJoin p, held_jpeg s, held_clients s)) cs \<and>
   held_jpeg (fold (\<lambda>p. logged (ThreadJoin p)) cs s) = held_jpeg s \<and>
   held_clients (fold (\<lambda>p. logged (ThreadJoin p)) cs s) = held_clients s \<and>
   running (fold (\<lambda>p. logged (ThreadJoin p)) cs s) = running s \<and>
   store (fold (\<lambda>p. logged (ThreadJoin p)) cs s) = store s"
  by (induction cs arbitrary: s) (simp_all add: logged_simps)

lemma publish_trace_ok:
  assumes "held_jpeg s" and "\<not> held_clients s"
  shows "\<exists>ext. trace (case publish cfg env k s of Inl (r, s') \<Rightarrow> s' | Inr s' \<Rightarrow> s') = trace s @ ext \<and>
     list_all entry_ok ext"
  using assms
  by (simp add: publish_def Let_def logged_simps mark_ready_def entry_defs)

lemma accept_trace_ok:
  assumes "held_jpeg s" and "\<not> held_clients s"
  shows "\<exists>ext. trace (outcome_state (accept_client env s)) = trace s @ ext \<and> list_all entry_ok ext"
  using assms
  by (cases "accept_res env") (simp_all add: accept_client_def Let_def logged_simps entry_defs)

lemma accept_not_Break: "accept_client env s \<noteq> Break s'"
  by (cases "accept_res env") (simp_all add: accept_client_def Let_def)

lemma shutdown_trace_ok:
  assumes "held_jpeg s" and "\<not> held_clients s"
  shows "\<exists>ext. trace (snd (shutdown fl s)) = trace s @ ext \<and> list_all entry_ok ext"
  using assms
  by (simp add: shutdown_def Let_def logged_simps trace_fold_join entry_defs list_all_iff)

lemma iteration_trace_ok:
  assumes hj: "held_jpeg s" and hc: "\<not> held_clients s"
  shows "\<exists>ext. trace (outcome_state (main_iteration P cfg env s)) = trace s @ ext \<and>
     list_all entry_ok ext"
proof (cases "read_res env")
  case Interrupted
  then show ?thesis using hj hc
    by (simp add: main_iteration_def Let_def logged_simps bye_handler_simps entry_defs)
next
  case Failed
  then show ?thesis using hj hc
    by (simp add: main_iteration_def Let_def logged_simps entry_defs)
next
  case (Got chunk)
  have rd: "list_all entry_ok [(Read, held_jpeg s, held_clients s)]"
    using hj hc by (simp add: entry_defs)
  show ?thesis
  proof (cases "chunk = [] \<or> int (length chunk) > int (JPEG_BUF_LEN P) - 1 - int (jpeg_size s)")
    case True
    then show ?thesis using Got rd
      by (auto simp add: main_iteration_def Let_def logged_simps)
  next
    case False
    let ?s2 = "accumulate chunk (logged Read s)"
    have t2: "trace ?s2 = trace s @ [(Read, held_jpeg s, held_clients s)]"
      and h2: "held_jpeg ?s2" "\<not> held_clients ?s2"
      using hj hc by (simp_all add: accumulate_simps logged_simps)
    show ?thesis
    proof (cases "sep_search P cfg ?s2")
      case None
      then have "main_iteration P cfg env s = accept_client env ?s2"
        using Got False by (simp add: main_iteration_def Let_def logged_simps)
      moreover from accept_trace_ok [OF h2, of env] obtain ext where
        "trace (outcome_state (accept_client env ?s2)) = trace ?s2 @ ext" "list_all entry_ok ext"
        by blast
      ultimately show ?thesis using t2 rd by simp
    next
      case (Some k)
      have it: "main_iteration P cfg env s =
          (case publish cfg env k ?s2 of Inl (r, s3) \<Rightarrow> Return r s3
           | Inr s3 \<Rightarrow> accept_client env s3)"
        using Got False Some by (simp add: main_iteration_def Let_def logged_simps)
      from publish_trace_ok [OF h2, of cfg env k] obtain e1 where
        e1: "trace (case publish cfg env k ?s2 of Inl (r, s') \<Rightarrow> s' | Inr s' \<Rightarrow> s') = trace ?s2 @ e1"
          "list_all entry_ok e1" by blast
      show ?thesis
      proof (cases "publish cfg env k ?s2")
        case (Inl a)
        then show ?thesis using it e1 t2 rd by (cases a) simp
      next
        case (Inr s3)
        have h3: "held_jpeg s3" "\<not> held_clients s3"
          using publish_Inr [OF Inr] h2 by simp_all
        from accept_trace_ok [OF h3, of env] obtain e2 where
          "trace (outcome_state (accept_client env s3)) = trace s3 @ e2" "list_all entry_ok e2"
          by blast
        then show ?thesis using it Inr e1 t2 rd by simp
      qed
    qed
  qed
qed

lemma iteration_locks:
  assumes hj: "held_jpeg s" and hc: "\<not> held_clients s"
    and it: "main_iteration P cfg env s = Continue s' \<or> main_iteration P cfg env s = Break s'"
  shows "held_jpeg s' \<and> \<not> held_clients s'"
proof (cases "read_res env")
  case Interrupted
  then show ?thesis using it hj hc
    by (auto simp add: main_iteration_def Let_def logged_simps bye_handler_simps)
next
  case Failed
  then show ?thesis using it by (simp add: main_iteration_def Let_def)
next
  case (Got chunk)
  show ?thesis
  proof (cases "chunk = [] \<or> int (length chunk) > int (JPEG_BUF_LEN P) - 1 - int (jpeg_size s)")
    case True
    then show ?thesis using Got it hj hc
      by (auto simp add: main_iteration_def Let_def logged_simps split: if_splits)
  next
    case False
    let ?s2 = "accumulate chunk (logged Read s)"
    have h2: "held_jpeg ?s2" "\<not> held_clients ?s2"
      using hj hc by (simp_all add: accumulate_simps logged_simps)
    show ?thesis
    proof (cases "sep_search P cfg ?s2")
      case None
      then have "accept_client env ?s2 = Continue s'"
        using it Got False by (auto simp add: main_iteration_def Let_def logged_simps accept_not_Break)
      from accept_Continue [OF this] h2 show ?thesis by simp
    next
      case (Some k)
      then obtain s3 where p: "publish cfg env k ?s2 = Inr s3"
        and a: "accept_client env s3 = Continue s'"
        using it Got False
        by (auto simp add: main_iteration_def Let_def logged_simps accept_not_Break split: sum.splits)
      from publish_Inr [OF p] h2 have "held_jpeg s3" "\<not> held_clients s3" by simp_all
      with accept_Continue [OF a] show ?thesis by simp
    qed
  qed
qed

lemma run_trace_ok:
  assumes "held_jpeg s" and "\<not> held_clients s" and "list_all entry_ok (trace s)"
  shows "list_all entry_ok (trace (run_state (main_loop P cfg envs s))) \<and>
    (\<forall>s'. main_loop P cfg envs s = Pending s' \<longrightarrow> held_jpeg s' \<and> \<not> held_clients s')"
  using assms
proof (induction envs arbitrary: s)
  case Nil
  then show ?case by simp
next
  case (Cons env envs)
  let ?s0 = "if signalled env then bye_handler s else s"
  have h0: "held_jpeg ?s0" "\<not> held_clients ?s0" "list_all entry_ok (trace ?s0)"
    using Cons.prems by (simp_all add: bye_handler_simps)
  show ?case
  proof (cases "running ?s0")
    case False
    then have r: "main_loop P cfg (env # envs) s
        = Exited (fst (shutdown (fails env) ?s0)) (snd (shutdown (fails env) ?s0))"
      by (simp add: Let_def split: prod.splits)
    from shutdown_trace_ok [OF h0(1) h0(2), of "fails env"] h0(3) show ?thesis
      unfolding r by auto
  next
    case True
    from iteration_trace_ok [OF h0(1) h0(2), of P cfg env] obtain ext where
      ext: "trace (outcome_state (main_iteration P cfg env ?s0)) = trace ?s0 @ ext"
        "list_all entry_ok ext" by blast
    show ?thesis
    proof (cases "main_iteration P cfg env ?s0")
      case (Continue s')
      have "held_jpeg s' \<and> \<not> held_clients s'"
        using iteration_locks [OF h0(1) h0(2), of P cfg env s'] Continue by simp
      moreover have "list_all entry_ok (trace s')" using ext h0(3) Continue by simp
      ultimately have "list_all entry_ok (trace (run_state (main_loop P cfg envs s'))) \<and>
          (\<forall>s''. main_loop P cfg envs s' = Pending s'' \<longrightarrow> held_jpeg s'' \<and> \<not> held_clients s'')"
        using Cons.IH by blast
      then show ?thesis using True Continue by (simp add: Let_def)
    next
      case (Break s')
      have r: "main_loop P cfg (env # envs) s
        = Exited (fst (shutdown (fails env) s')) (snd (shutdown (fails env) s'))"
        using True Break by (simp add: Let_def split: prod.splits)
      have l: "held_jpeg s'" "\<not> held_clients s'"
        using iteration_locks [OF h0(1) h0(2), of P cfg env s'] Break by simp_all
      have "list_all entry_ok (trace s')" using ext h0(3) Break by simp
      with shutdown_trace_ok [OF l, of "fails env"] show ?thesis unfolding r by auto
    next
      case (Return r s')
      have "main_loop P cfg (env # envs) s = Exited r s'"
        using True Return by (simp add: Let_def)
      moreover have "list_all entry_ok (trace s')" using ext h0(3) Return by simp
      ultimately show ?thesis by simp
    qed
  qed
qed

lemma init_trace_ok:
  "held_jpeg (init_state P)" "\<not> held_clients (init_state P)" "list_all entry_ok (trace (init_state P))"
  by (simp_all add: init_state_def)

text \<open>
  Claim C6, as the code has it. In every run from the initial state, every read from
  stdin is made while the main thread holds \<^verbatim>\<open>jpeg_mutex\<close>, and while the loop is running
  the loop condition is reached with the mutex held. Inside the loop the main thread is
  without the mutex only for the sleep that follows the unlock at line 400 and for the
  call that locks it again at line 409; after the loop, for the joins and the destruction
  of the synchronisation objects.
\<close>
theorem producer_reads_with_jpeg_mutex_held:
  "list_all producer_entry_ok (trace (run_state (main_loop P cfg envs (init_state P)))) \<and>
   (\<forall>s'. main_loop P cfg envs (init_state P) = Pending s' \<longrightarrow> held_jpeg s')"
  using run_trace_ok [where s = "init_state P" and P = P and cfg = cfg and envs = envs,
      OF init_trace_ok]
  by (simp add: list_all_iff entry_ok_def)

theorem producer_reads_with_jpeg_mutex_held_witness:
  "list_all producer_entry_ok (trace (run_state (main_loop small_params (init_separator None)
      (map reading [[CHR ''a'', CHR 0xFF, CHR 0xD9, CHR 0xFF], [CHR 0xD8, CHR ''b'']])
      (init_state small_params)))) \<and>
   trace (run_state (main_loop small_params (init_separator None)
      (map reading [[CHR ''a'', CHR 0xFF, CHR 0xD9, CHR 0xFF], [CHR 0xD8, CHR ''b'']])
      (init_state small_params)))
    = [(Read, True, False), (Accept, True, False), (Read, True, False),
       (FrameReady [CHR ''a'', CHR 0xFF, CHR 0xD9], True, False), (CondBroadcast, True, False),
       (UnlockJpeg, True, False), (Usleep, False, False), (LockJpeg, False, False),
       (Accept, True, False)] \<and>
   held_jpeg (run_state (main_loop small_params (init_separator None)
      (map reading [[CHR ''a'', CHR 0xFF, CHR 0xD9, CHR 0xFF], [CHR 0xD8, CHR ''b'']])
      (init_state small_params)))"
proof -
  have t: "main_loop small_params (init_separator None)
      (map reading [[CHR ''a'', CHR 0xFF, CHR 0xD9, CHR 0xFF], [CHR 0xD8, CHR ''b'']])
      (init_state small_params)
    = Pending (run_state (main_loop small_params (init_separator None)
      (map reading [[CHR ''a'', CHR 0xFF, CHR 0xD9, CHR 0xFF], [CHR 0xD8, CHR ''b'']])
      (init_state small_params)))"
    by (simp add: run_defs)
  have tr: "trace (run_state (main_loop small_params (init_separator None)
      (map reading [[CHR ''a'', CHR 0xFF, CHR 0xD9, CHR 0xFF], [CHR 0xD8, CHR ''b'']])
      (init_state small_params)))
    = [(Read, True, False), (Accept, True, False), (Read, True, False),
       (FrameReady [CHR ''a'', CHR 0xFF, CHR 0xD9], True, False), (CondBroadcast, True, False),
       (UnlockJpeg, True, False), (Usleep, False, False), (LockJpeg, False, False),
       (Accept, True, False)]"
    by (simp add: run_defs)
  from producer_reads_with_jpeg_mutex_held [of small_params "init_separator None"
      "map reading [[CHR ''a'', CHR 0xFF, CHR 0xD9, CHR 0xFF], [CHR 0xD8, CHR ''b'']]"] t tr
  show ?thesis by blast
qed

text \<open>
  Claim C6, as stated, fails at the first read: the mutex is locked at line 329 and the
  read at line 351 is made with it held.
\<close>
theorem producer_holds_jpeg_mutex_in_read:
  "trace (run_state (main_loop small_params (init_separator None) [reading ''abcd'']
      (init_state small_params))) = [(Read, True, False), (Accept, True, False)]"
  by (simp add: run_defs)

text \<open>
  Claim C7, as the code has it, for the main thread. In every run from the initial
  state, \<^verbatim>\<open>clients_mutex\<close> is held only while \<^verbatim>\<open>jpeg_mutex\<close> is held too, and only for the
  registration of an accepted client (lines 432-437); \<^verbatim>\<open>jpeg_mutex\<close> is never requested
  while \<^verbatim>\<open>clients_mutex\<close> is held; and the loop condition is reached without
  \<^verbatim>\<open>clients_mutex\<close>.
\<close>
theorem main_thread_lock_order:
  "list_all lock_order_ok (trace (run_state (main_loop P cfg envs (init_state P)))) \<and>
   (\<forall>s'. main_loop P cfg envs (init_state P) = Pending s' \<longrightarrow> \<not> held_clients s')"
  using run_trace_ok [where s = "init_state P" and P = P and cfg = cfg and envs = envs,
      OF init_trace_ok]
  by (simp add: list_all_iff entry_ok_def)

theorem main_thread_lock_order_witness:
  "list_all lock_order_ok (trace (run_state (main_loop small_params (init_separator None)
      [\<lparr>signalled = False, read_res = Got ''abcd'', fails = [], accept_res = Some 7\<rparr>]
      (init_state small_params)))) \<and>
   \<not> held_clients (run_state (main_loop small_params (init_separator None)
      [\<lparr>signalled = False, read_res = Got ''abcd'', fails = [], accept_res = Some 7\<rparr>]
      (init_state small_params))) \<and>
   clients (run_state (main_loop small_params (init_separator None)
      [\<lparr>signalled = False, read_res = Got ''abcd'', fails = [], accept_res = Some 7\<rparr>]
      (init_state small_params))) = [7]"
proof -
  have t: "main_loop small_params (init_separator None)
      [\<lparr>signalled = False, read_res = Got ''abcd'', fails = [], accept_res = Some 7\<rparr>]
      (init_state small_params)
    = Pending (run_state (main_loop small_params (init_separator None)
      [\<lparr>signalled = False, read_res = Got ''abcd'', fails = [], accept_res = Some 7\<rparr>]
      (init_state small_params)))"
    by (simp add: run_defs)
  have c: "clients (run_state (main_loop small_params (init_separator None)
      [\<lparr>signalled = False, read_res = Got ''abcd'', fails = [], accept_res = Some 7\<rparr>]
      (init_state small_params))) = [7]"
    by (simp add: run_defs)
  from main_thread_lock_order [of small_params "init_separator None"
      "[\<lparr>signalled = False, read_res = Got ''abcd'', fails = [], accept_res = Some 7\<rparr>]"] t c
  show ?thesis by blast
qed

text \<open>
  Claim C7, as stated, fails when a client is accepted: the main thread registers it
  with both mutexes held.
\<close>
theorem main_thread_holds_both_mutexes:
  "trace (run_state (main_loop small_params (init_separator None)
      [\<lparr>signalled = False, read_res = Got ''abcd'', fails = [], accept_res = Some 7\<rparr>]
      (init_state small_params)))
    = [(Read, True, False), (Accept, True, False), (ThreadCreate 7, True, False),
       (LockClients, True, False), (Register 7, True, True), (UnlockClients, True, True)]"
  by (simp add: run_defs)

subsection \<open>The end of the input\<close>






end
